theory Spec2Isabelle
  imports Main "HOL-Library.AList"
begin

section \<open>Expiring background cache (src/lib/backgroundContext.tsx)\<close>

text \<open>
  Timestamps are epoch milliseconds. The source holds them in JavaScript numbers; they are
  integers far below \<open>2 ^ 53\<close>, where subtraction and comparison are exact, so they are
  modelled as \<open>int\<close>.
\<close>

definition BG_CACHE_VERSION :: string where
  "BG_CACHE_VERSION = ''v1''"

definition BG_EXPIRE_TIME :: int where
  "BG_EXPIRE_TIME = 24 * 60 * 60 * 1000"

record BackgroundCache =
  url :: string
  timestamp :: int
  version :: string

text \<open>
  \<^verbatim>\<open>isCacheValid(cache: BackgroundCache | null, now)\<close>: the nullable argument is an
  \<open>option\<close>; the three tests come in the order of the source.
\<close>

definition isCacheValid :: "BackgroundCache option \<Rightarrow> int \<Rightarrow> bool" where
  "isCacheValid cache now =
     (case cache of
        None \<Rightarrow> False
      | Some c \<Rightarrow>
          if version c \<noteq> BG_CACHE_VERSION then False
          else (let age = now - timestamp c in age < BG_EXPIRE_TIME))"

text \<open>
  The browser's storage as the functions below see it: one key of \<^verbatim>\<open>localStorage\<close>.
  \<open>window_defined\<close> is \<^verbatim>\<open>typeof window !== 'undefined'\<close>; \<open>denied\<close> stands for a
  browser in which every access to \<^verbatim>\<open>localStorage\<close> throws; \<open>item\<close> is what
  \<^verbatim>\<open>getItem\<close> returns for the key (\<open>None\<close> is \<^verbatim>\<open>null\<close>); \<open>quota_exceeded\<close>
  makes \<^verbatim>\<open>setItem\<close> throw.
\<close>

record 'a browser =
  window_defined :: bool
  denied :: bool
  item :: "'a option"
  quota_exceeded :: bool

definition removeItem :: "'a browser \<Rightarrow> 'a browser" where
  "removeItem b = b\<lparr>item := None\<rparr>"

definition setItem :: "'a \<Rightarrow> 'a browser \<Rightarrow> 'a browser option" where
  \<comment> \<open>\<open>None\<close>: the call throws\<close>
  "setItem x b = (if denied b \<or> quota_exceeded b then None else Some (b\<lparr>item := Some x\<rparr>))"

text \<open>
  The string stored under a key, classified by what the source does with it: the empty
  string (falsy), a text that \<^verbatim>\<open>JSON.parse\<close> rejects, the JSON text \<^verbatim>\<open>null\<close>, and
  the JSON text of a value of the type the source declares for the key
  (\<^verbatim>\<open>BackgroundCache\<close> under \<^verbatim>\<open>app_background_cache\<close>, \<^verbatim>\<open>SavedIdentity[]\<close> under
  \<^verbatim>\<open>saved_identities\<close>). \<^verbatim>\<open>JSON.stringify\<close> followed by \<^verbatim>\<open>JSON.parse\<close> gives such
  a value back unchanged, so a written value is stored as \<open>Json\<close>.
\<close>

datatype 'a stored = EmptyString | Unparseable | JsonNull | Json 'a

text \<open>
  \<^verbatim>\<open>getCachedBackground()\<close>, with \<^verbatim>\<open>Date.now()\<close> as the argument \<open>now\<close>. The result
  is the returned value (\<open>None\<close> is \<^verbatim>\<open>null\<close>) and the storage afterwards.
\<close>

definition getCachedBackground ::
  "int \<Rightarrow> BackgroundCache stored browser \<Rightarrow> string option \<times> BackgroundCache stored browser" where
  "getCachedBackground now b =
     (if \<not> window_defined b then (None, b)
      else if denied b then (None, b)
        \<comment> \<open>\<^verbatim>\<open>getItem\<close> throws; the handler's \<^verbatim>\<open>removeItem\<close> throws as well and is ignored\<close>
      else case item b of
          None \<Rightarrow> (None, b)
        | Some EmptyString \<Rightarrow> (None, b)
            \<comment> \<open>\<^verbatim>\<open>if (!cached) return null\<close>: the empty string is falsy\<close>
        | Some Unparseable \<Rightarrow> (None, removeItem b)
            \<comment> \<open>\<^verbatim>\<open>JSON.parse\<close> throws; the handler removes the item\<close>
        | Some JsonNull \<Rightarrow>
            if \<not> isCacheValid None now then (None, removeItem b)
            else (None, removeItem b)
            \<comment> \<open>\<^verbatim>\<open>data.url\<close> of \<^verbatim>\<open>null\<close> throws; the handler removes the item\<close>
        | Some (Json data) \<Rightarrow>
            if \<not> isCacheValid (Some data) now then (None, removeItem b)
            else (Some (url data), b))"

definition setCachedBackground ::
  "string \<Rightarrow> int \<Rightarrow> BackgroundCache stored browser \<Rightarrow> BackgroundCache stored browser" where
  "setCachedBackground u now b =
     (if \<not> window_defined b then b
      else case setItem (Json \<lparr>url = u, timestamp = now, version = BG_CACHE_VERSION\<rparr>) b of
          None \<Rightarrow> b
        | Some b' \<Rightarrow> b')"

definition hours :: "int \<Rightarrow> int" where
  "hours h = h * 60 * 60 * 1000"

section \<open>Saved identities (src/lib/identityData.ts)\<close>






text \<open>Decimal rendering of \<^verbatim>\<open>Date.now()\<close> inside the template string of the id.\<close>

function to_decimal :: "nat \<Rightarrow> string" where
  "to_decimal n =
     (if n < 10 then [char_of (48 + n)]
      else to_decimal (n div 10) @ [char_of (48 + n mod 10)])"
  by pat_completeness auto
termination
  by (relation "measure (\<lambda>n. n)") auto




section \<open>Timeout-guarded IP detection (src/lib/__tests__/ipFallback.test.ts, src/app/page.tsx)\<close>

text \<open>
  The final state of a promise: it stays pending for ever, it is rejected, or it is
  fulfilled with a value.
\<close>

datatype 'a promise = Pending | Rejected | Fulfilled 'a

text \<open>
  The values a field of the parsed response can hold, with JavaScript's truthiness, which
  is what \<^verbatim>\<open>data.ip || DEFAULT_IP\<close> and \<^verbatim>\<open>!data.ip\<close> test. \<open>Undefined\<close> is also what
  reading an absent field gives; \<open>Object\<close> is any object or array.
\<close>

datatype jsval = Undefined | Null | Bool bool | Num int | Str string | Object

fun truthy :: "jsval \<Rightarrow> bool" where
  "truthy Undefined = False"
| "truthy Null = False"
| "truthy (Bool b) = b"
| "truthy (Num n) = (n \<noteq> 0)"
| "truthy (Str s) = (s \<noteq> [])"
| "truthy Object = True"

definition or_else :: "jsval \<Rightarrow> jsval \<Rightarrow> jsval" where
  \<comment> \<open>the operator \<^verbatim>\<open>||\<close>\<close>
  "or_else a b = (if truthy a then a else b)"

text \<open>
  What \<^verbatim>\<open>response.json()\<close> is fulfilled with: \<open>NoData\<close> is \<^verbatim>\<open>null\<close> or
  \<^verbatim>\<open>undefined\<close>, on which reading a field throws; every other value is given by the
  three fields the code reads.
\<close>

datatype payload = NoData | Data (data_ip: jsval) (data_country: jsval) (data_accurate: jsval)

text \<open>
  The fetch: it never settles, or it settles at a time (in milliseconds after the call),
  rejected or fulfilled with a response, which is modelled by the fate of its
  \<^verbatim>\<open>json()\<close> promise.
\<close>

datatype fetch = FetchNever | FetchRejects nat | FetchResolves nat "payload promise"

text \<open>
  \<^verbatim>\<open>Promise.race([fetchFn(), timeoutPromise])\<close>: the timer rejects at \<open>timeoutMs\<close>, so
  the race always settles. When both settle in the same millisecond the order is the event
  loop's; \<open>fetch_first\<close> says which way it goes.
\<close>

definition race :: "bool \<Rightarrow> fetch \<Rightarrow> nat \<Rightarrow> payload promise promise" where
  "race fetch_first f timeoutMs =
     (case f of
        FetchNever \<Rightarrow> Rejected
      | FetchRejects t \<Rightarrow> Rejected
      | FetchResolves t response \<Rightarrow>
          if t < timeoutMs \<or> (t = timeoutMs \<and> fetch_first) then Fulfilled response else Rejected)"

definition DEFAULT_COUNTRY :: string where
  "DEFAULT_COUNTRY = ''US''"

definition DEFAULT_IP :: string where
  \<comment> \<open>the four-character Chinese text for "detection failed", as its UTF-8 bytes\<close>
  "DEFAULT_IP = map char_of
     [0xE6, 0xA3, 0x80, 0xE6, 0xB5, 0x8B, 0xE5, 0xA4, 0xB1, 0xE8, 0xB4, 0xA5 :: nat]"

definition UNKNOWN_IP :: string where
  \<comment> \<open>the two-character Chinese text for "unknown" of \<^verbatim>\<open>page.tsx\<close>, as its UTF-8 bytes\<close>
  "UNKNOWN_IP = map char_of [0xE6, 0x9C, 0xAA, 0xE7, 0x9F, 0xA5 :: nat]"

definition TIMEOUT_MS :: nat where
  "TIMEOUT_MS = 3000"

record IpDetectionResult =
  ip :: jsval
  country :: jsval
  isDefault :: bool

definition default_result :: IpDetectionResult where
  \<comment> \<open>the object literal of the \<^verbatim>\<open>catch\<close> block\<close>
  "default_result = \<lparr>ip = Str DEFAULT_IP, country = Str DEFAULT_COUNTRY, isDefault = True\<rparr>"

text \<open>
  \<^verbatim>\<open>detectIp(fetchFn, timeoutMs)\<close>: the fate of the promise it returns. Only the fetch
  is raced against the timer; \<^verbatim>\<open>await response.json()\<close> comes after the race.
\<close>

definition detectIp :: "bool \<Rightarrow> fetch \<Rightarrow> nat \<Rightarrow> IpDetectionResult promise" where
  "detectIp fetch_first fetchFn timeoutMs =
     (case race fetch_first fetchFn timeoutMs of
        Pending \<Rightarrow> Pending
      | Rejected \<Rightarrow> Fulfilled default_result
      | Fulfilled response \<Rightarrow>
          (case response of
             Pending \<Rightarrow> Pending
           | Rejected \<Rightarrow> Fulfilled default_result
           | Fulfilled NoData \<Rightarrow> Fulfilled default_result
               \<comment> \<open>\<^verbatim>\<open>data.ip\<close> throws inside \<^verbatim>\<open>try\<close>\<close>
           | Fulfilled (Data dip dcountry daccurate) \<Rightarrow>
               Fulfilled
                 \<lparr>ip = or_else dip (Str DEFAULT_IP),
                  country = or_else dcountry (Str DEFAULT_COUNTRY),
                  isDefault = (\<not> truthy dip \<or> \<not> truthy dcountry)\<rparr>))"

text \<open>
  \<^verbatim>\<open>initializeApp\<close> of \<^verbatim>\<open>page.tsx\<close>, restricted to the two pieces of state the
  detection sets: \<^verbatim>\<open>ipInfo\<close> and \<^verbatim>\<open>isInitialized\<close> (the choice of the selected country,
  made through a function of another module, is left out). \<open>isMounted\<close> is the flag as the
  continuation finds it. The result is the fate of the promise and the state.
\<close>

record AppState =
  ipInfo_ip :: jsval
  ipInfo_country :: jsval
  isInitialized :: bool

definition catch_block :: "bool \<Rightarrow> AppState \<Rightarrow> AppState" where
  "catch_block isMounted st =
     (if isMounted then st\<lparr>ipInfo_ip := Str DEFAULT_IP, ipInfo_country := Str ''US''\<rparr> else st)"

definition finally_block :: "bool \<Rightarrow> AppState \<Rightarrow> AppState" where
  "finally_block isMounted st = (if isMounted then st\<lparr>isInitialized := True\<rparr> else st)"

definition initializeApp ::
  "bool \<Rightarrow> fetch \<Rightarrow> bool \<Rightarrow> AppState \<Rightarrow> unit promise \<times> AppState" where
  "initializeApp fetch_first fetchFn isMounted st =
     (case race fetch_first fetchFn 3000 of
        Pending \<Rightarrow> (Pending, st)
      | Rejected \<Rightarrow> (Fulfilled (), finally_block isMounted (catch_block isMounted st))
      | Fulfilled response \<Rightarrow>
          (case response of
             Pending \<Rightarrow> (Pending, st)
           | Rejected \<Rightarrow> (Fulfilled (), finally_block isMounted (catch_block isMounted st))
           | Fulfilled data \<Rightarrow>
               if \<not> isMounted then (Fulfilled (), finally_block isMounted st)
               else (case data of
                   NoData \<Rightarrow> (Fulfilled (), finally_block isMounted (catch_block isMounted st))
                 | Data dip dcountry daccurate \<Rightarrow>
                     (Fulfilled (),
                      finally_block isMounted
                        (st\<lparr>ipInfo_ip := or_else dip (Str UNKNOWN_IP),
                            ipInfo_country := or_else dcountry (Str ''US'')\<rparr>)))))"

section \<open>Flag icon cache (src/lib/flagCache.ts)\<close>

text \<open>
  A JavaScript \<^verbatim>\<open>Map\<close> keeps its entries in insertion order: it is a list of pairs with
  distinct keys, oldest entry first. \<^verbatim>\<open>get\<close> is \<^const>\<open>map_of\<close>, \<^verbatim>\<open>delete\<close> is
  \<^const>\<open>AList.delete\<close>, \<^verbatim>\<open>set\<close> is \<^const>\<open>AList.update\<close> (a present key keeps its
  place, a new key goes to the end), \<^verbatim>\<open>size\<close> is \<^const>\<open>length\<close>.

  The module state: the two maps of the source, and the loads that wait at
  \<^verbatim>\<open>await import(...)\<close>, each with the identifier of its promise and its country code.
  Promises are told apart by a number.
\<close>

definition MAX_CACHE_SIZE :: nat where
  "MAX_CACHE_SIZE = 30"

record 'v flag_module =
  flagCache :: "(string \<times> 'v) list"
  loadingPromises :: "(string \<times> nat) list"
  suspended :: "(nat \<times> string) list"
  next_promise :: nat

definition initial_module :: "'v flag_module" where
  "initial_module = \<lparr>flagCache = [], loadingPromises = [], suspended = [], next_promise = 0\<rparr>"

text \<open>
  What a call of \<^verbatim>\<open>loadFlagIcon\<close> hands back: a promise already resolved with the cached
  component, the promise found in \<^verbatim>\<open>loadingPromises\<close>, or the promise of a load it has
  started.
\<close>

datatype 'v request = Hit 'v | Joined nat | Started nat

text \<open>
  \<^verbatim>\<open>loadFlagIcon(countryCode)\<close> up to its return. A cached component is a function and a
  stored promise an object, so both \<^verbatim>\<open>if\<close> tests are tests for presence. A started
  load runs up to \<^verbatim>\<open>await import(...)\<close> and is entered in \<^verbatim>\<open>loadingPromises\<close>.
\<close>

definition loadFlagIcon :: "string \<Rightarrow> 'v flag_module \<Rightarrow> 'v request \<times> 'v flag_module" where
  "loadFlagIcon code st =
     (case map_of (flagCache st) code of
        Some cached \<Rightarrow>
          (Hit cached,
           st\<lparr>flagCache := AList.update code cached
                              (AList.delete code (flagCache st))\<rparr>)
      | None \<Rightarrow>
          (case map_of (loadingPromises st) code of
             Some loading \<Rightarrow> (Joined loading, st)
           | None \<Rightarrow>
               let loadPromise = next_promise st
               in (Started loadPromise,
                   st\<lparr>suspended := suspended st @ [(loadPromise, code)],
                      loadingPromises := AList.update code loadPromise (loadingPromises st),
                      next_promise := loadPromise + 1\<rparr>)))"

text \<open>
  Step 4 of the load: at capacity, the first key of the map is deleted, unless that key is
  falsy (the empty string).
\<close>

definition evict_oldest :: "(string \<times> 'v) list \<Rightarrow> (string \<times> 'v) list" where
  "evict_oldest c =
     (if length c \<ge> MAX_CACHE_SIZE then
        (case c of
           [] \<Rightarrow> c
         | (oldestKey, _) # _ \<Rightarrow> if oldestKey \<noteq> [] then AList.delete oldestKey c else c)
      else c)"

text \<open>
  The rest of a load, run when the import it waits for settles. \<open>flags\<close> is the imported
  module \<^verbatim>\<open>country-flag-icons/react/3x2\<close>: \<open>flags k\<close> is the export named \<open>k\<close> when
  there is one and it is a function. \<open>import_ok\<close> tells a fulfilled import from a rejected
  one. The result is the value the load's promise is fulfilled with (\<open>None\<close> is
  \<^verbatim>\<open>null\<close>); \<open>finish\<close> is the \<^verbatim>\<open>finally\<close> block, which runs on every path. A
  promise that does not wait settles nothing.
\<close>

definition settle ::
  "(string \<Rightarrow> 'v option) \<Rightarrow> nat \<Rightarrow> bool \<Rightarrow> 'v flag_module \<Rightarrow> 'v option \<times> 'v flag_module" where
  "settle flags p import_ok st =
     (case map_of (suspended st) p of
        None \<Rightarrow> (None, st)
      | Some code \<Rightarrow>
          let st1 = st\<lparr>suspended := AList.delete p (suspended st)\<rparr>;
              finish = (\<lambda>s. s\<lparr>loadingPromises := AList.delete code (loadingPromises s)\<rparr>)
          in if import_ok then
               (case flags code of
                  Some FlagComponent \<Rightarrow>
                    (Some FlagComponent,
                     finish (st1\<lparr>flagCache := AList.update code FlagComponent
                                                (evict_oldest (flagCache st1))\<rparr>))
                | None \<Rightarrow> (None, finish st1))
             else (None, finish st1))"

text \<open>\<^verbatim>\<open>await loadFlagIcon(countryCode)\<close>: the call, then the settling of its promise.\<close>

definition load_await ::
  "(string \<Rightarrow> 'v option) \<Rightarrow> bool \<Rightarrow> string \<Rightarrow> 'v flag_module \<Rightarrow> 'v option \<times> 'v flag_module" where
  "load_await flags import_ok code st =
     (case loadFlagIcon code st of
        (Hit cached, st') \<Rightarrow> (Some cached, st')
      | (Joined p, st') \<Rightarrow> settle flags p import_ok st'
      | (Started p, st') \<Rightarrow> settle flags p import_ok st')"

definition load_all :: "(string \<Rightarrow> 'v option) \<Rightarrow> string list \<Rightarrow> 'v flag_module \<Rightarrow> 'v flag_module" where
  "load_all flags ks st = fold (\<lambda>k s. snd (load_await flags True k s)) ks st"

definition getCacheSize :: "'v flag_module \<Rightarrow> nat" where
  "getCacheSize st = length (flagCache st)"

definition isCached :: "string \<Rightarrow> 'v flag_module \<Rightarrow> bool" where
  "isCached code st = (code \<in> set (map fst (flagCache st)))"

definition getCachedCodes :: "'v flag_module \<Rightarrow> string list" where
  "getCachedCodes st = map fst (flagCache st)"

text \<open>
  The module over time: calls of \<^verbatim>\<open>loadFlagIcon\<close> and settlings of imports, in any
  order.
\<close>

datatype event = Call string | Settle nat bool

fun step :: "(string \<Rightarrow> 'v option) \<Rightarrow> event \<Rightarrow> 'v flag_module \<Rightarrow> 'v flag_module" where
  "step flags (Call k) st = snd (loadFlagIcon k st)"
| "step flags (Settle p ok) st = snd (settle flags p ok st)"

definition run :: "(string \<Rightarrow> 'v option) \<Rightarrow> event list \<Rightarrow> 'v flag_module \<Rightarrow> 'v flag_module" where
  "run flags es st = fold (step flags) es st"

text \<open>
  The keys an event touches: a call that finds its key cached, and a settling that stores
  a component. \<open>touched\<close> lists the touches of a sequence of events in their order.
\<close>

fun touch :: "(string \<Rightarrow> 'v option) \<Rightarrow> event \<Rightarrow> 'v flag_module \<Rightarrow> string list" where
  "touch flags (Call k) st = (if map_of (flagCache st) k \<noteq> None then [k] else [])"
| "touch flags (Settle p ok) st =
     (case map_of (suspended st) p of
        None \<Rightarrow> []
      | Some k \<Rightarrow> if ok \<and> flags k \<noteq> None then [k] else [])"

fun touched :: "(string \<Rightarrow> 'v option) \<Rightarrow> event list \<Rightarrow> 'v flag_module \<Rightarrow> string list" where
  "touched flags [] st = []"
| "touched flags (e # es) st = touch flags e st @ touched flags es (step flags e st)"

text \<open>
  The specification of the eviction policy, in the words of the spec: the cache holds the
  most recently touched keys, at most \<open>MAX_CACHE_SIZE\<close> of them, the least recently touched
  first. (\<^const>\<open>remdups\<close> keeps the last occurrence of each key.)
\<close>

definition lru_spec :: "string list \<Rightarrow> string list" where
  "lru_spec touches =
     (let recency = remdups touches in drop (length recency - MAX_CACHE_SIZE) recency)"

text \<open>
  A module to run the cache on: it exports a component for every name but the empty one
  and \<open>ZZ\<close>.
\<close>

definition example_flags :: "string \<Rightarrow> string option" where
  "example_flags k = (if k = [] \<or> k = ''ZZ'' then None else Some (''flag of '' @ k))"

text \<open>
  Invariants of the module. \<open>pending_inv\<close>: the table of pending loads and the waiting
  loads mirror each other, with one entry per key and per promise, and no key of a waiting
  load is cached. \<open>cache_inv\<close>: the cache has distinct keys, at most \<open>MAX_CACHE_SIZE\<close>
  entries, and holds under each key the component the imported module exports for it.
\<close>

definition pending_inv :: "'v flag_module \<Rightarrow> bool" where
  "pending_inv st \<longleftrightarrow>
     distinct (map fst (loadingPromises st))
     \<and> distinct (map fst (suspended st))
     \<and> distinct (map snd (suspended st))
     \<and> (\<forall>p k. (p, k) \<in> set (suspended st) \<longleftrightarrow> (k, p) \<in> set (loadingPromises st))
     \<and> (\<forall>p k. (p, k) \<in> set (suspended st) \<longrightarrow> p < next_promise st)
     \<and> (\<forall>p k. (p, k) \<in> set (suspended st) \<longrightarrow> k \<notin> fst ` set (flagCache st))"

definition cache_inv :: "(string \<Rightarrow> 'v option) \<Rightarrow> 'v flag_module \<Rightarrow> bool" where
  "cache_inv flags st \<longleftrightarrow>
     distinct (map fst (flagCache st))
     \<and> length (flagCache st) \<le> MAX_CACHE_SIZE
     \<and> (\<forall>k v. (k, v) \<in> set (flagCache st) \<longrightarrow> flags k = Some v)"

section \<open>Debounce hooks (src/unnamed/part_001)\<close>

text \<open>
  A mounted hook, as React runs it. \<open>current\<close> is the \<^verbatim>\<open>value\<close> argument of the latest
  render, \<open>debouncedValue\<close> and \<open>isPending\<close> are the two pieces of state, \<open>timer\<close> is the
  timeout that is scheduled and not yet fired or cleared (the time at which it fires and the
  value its callback closes over), \<open>clock\<close> is the time in milliseconds. \<open>calls\<close> records
  every run of a timer callback, that is, every call \<^verbatim>\<open>setDebouncedValue(value)\<close>, with
  its time and the value it passes. The delay is the same at every render.

  React runs an effect after the first render and after every render in which one of its
  dependencies has changed, and runs the cleanup of the previous effect before that and at
  unmount; setting a piece of state to the value it already has causes no new render.
\<close>

record 'a hook =
  current :: 'a
  debouncedValue :: 'a
  isPending :: bool
  timer :: "(nat \<times> 'a) option"
  clock :: nat
  mounted :: bool
  calls :: "(nat \<times> 'a) list"

datatype 'a hook_event = Render 'a | Advance nat | Unmount

definition clear_timer :: "'a hook \<Rightarrow> 'a hook" where
  \<comment> \<open>\<^verbatim>\<open>if (timerRef.current) clearTimeout(timerRef.current)\<close>\<close>
  "clear_timer st = st\<lparr>timer := None\<rparr>"

definition initial_hook :: "'a \<Rightarrow> nat \<Rightarrow> 'a hook" where
  "initial_hook v now =
     \<lparr>current = v, debouncedValue = v, isPending = False, timer = None, clock = now,
      mounted = True, calls = []\<rparr>"

subsection \<open>\<^verbatim>\<open>useDebounce\<close>\<close>

definition useDebounce_effect :: "nat \<Rightarrow> 'a hook \<Rightarrow> 'a hook" where
  "useDebounce_effect delay st =
     (clear_timer st)\<lparr>timer := Some (clock st + delay, current st)\<rparr>"

definition useDebounce_cleanup :: "'a hook \<Rightarrow> 'a hook" where
  "useDebounce_cleanup st = clear_timer st"

definition useDebounce_mount :: "'a \<Rightarrow> nat \<Rightarrow> nat \<Rightarrow> 'a hook" where
  "useDebounce_mount v delay now = useDebounce_effect delay (initial_hook v now)"

text \<open>A render with the argument \<open>v\<close>: the dependencies are \<^verbatim>\<open>[value, delay]\<close>.\<close>

definition useDebounce_render :: "'a \<Rightarrow> nat \<Rightarrow> 'a hook \<Rightarrow> 'a hook" where
  "useDebounce_render v delay st =
     (if \<not> mounted st \<or> v = current st then st
      else useDebounce_effect delay (useDebounce_cleanup (st\<lparr>current := v\<rparr>)))"

text \<open>
  The timer callback \<^verbatim>\<open>() => { setDebouncedValue(value) }\<close>. The render it causes
  changes no dependency of the effect.
\<close>

definition useDebounce_timeout :: "'a hook \<Rightarrow> 'a hook" where
  "useDebounce_timeout st =
     (case timer st of
        None \<Rightarrow> st
      | Some (t, v) \<Rightarrow>
          st\<lparr>clock := t, timer := None, debouncedValue := v, calls := calls st @ [(t, v)]\<rparr>)"

text \<open>Time passes: a scheduled timer fires when its time has come.\<close>

definition useDebounce_advance :: "nat \<Rightarrow> 'a hook \<Rightarrow> 'a hook" where
  "useDebounce_advance dt st =
     (case timer st of
        Some (t, v) \<Rightarrow> if t \<le> clock st + dt then useDebounce_timeout st else st
      | None \<Rightarrow> st)\<lparr>clock := clock st + dt\<rparr>"

definition useDebounce_unmount :: "'a hook \<Rightarrow> 'a hook" where
  "useDebounce_unmount st = (useDebounce_cleanup st)\<lparr>mounted := False\<rparr>"

fun useDebounce_step :: "nat \<Rightarrow> 'a hook_event \<Rightarrow> 'a hook \<Rightarrow> 'a hook" where
  "useDebounce_step delay (Render v) st = useDebounce_render v delay st"
| "useDebounce_step delay (Advance dt) st = useDebounce_advance dt st"
| "useDebounce_step delay Unmount st = useDebounce_unmount st"

definition useDebounce_run :: "nat \<Rightarrow> 'a hook_event list \<Rightarrow> 'a hook \<Rightarrow> 'a hook" where
  "useDebounce_run delay es st = fold (useDebounce_step delay) es st"

subsection \<open>\<^verbatim>\<open>useDebounceWithPending\<close>\<close>

definition useDebounceWithPending_effect :: "nat \<Rightarrow> 'a hook \<Rightarrow> 'a hook" where
  "useDebounceWithPending_effect delay st =
     (let st1 = clear_timer st;
          st2 = (if current st1 \<noteq> debouncedValue st1 then st1\<lparr>isPending := True\<rparr> else st1)
      in st2\<lparr>timer := Some (clock st2 + delay, current st2)\<rparr>)"

definition useDebounceWithPending_cleanup :: "'a hook \<Rightarrow> 'a hook" where
  "useDebounceWithPending_cleanup st = clear_timer st"

definition useDebounceWithPending_mount :: "'a \<Rightarrow> nat \<Rightarrow> nat \<Rightarrow> 'a hook" where
  "useDebounceWithPending_mount v delay now =
     useDebounceWithPending_effect delay (initial_hook v now)"

text \<open>
  A render with the argument \<open>v\<close>: the dependencies are
  \<^verbatim>\<open>[value, delay, debouncedValue]\<close>, of which only \<^verbatim>\<open>value\<close> can differ here.
\<close>

definition useDebounceWithPending_render :: "'a \<Rightarrow> nat \<Rightarrow> 'a hook \<Rightarrow> 'a hook" where
  "useDebounceWithPending_render v delay st =
     (if \<not> mounted st \<or> v = current st then st
      else useDebounceWithPending_effect delay
             (useDebounceWithPending_cleanup (st\<lparr>current := v\<rparr>)))"

text \<open>
  The timer callback \<^verbatim>\<open>() => { setDebouncedValue(value); setIsPending(false) }\<close>. When
  it changes \<^verbatim>\<open>debouncedValue\<close>, a dependency of the effect, the render it causes runs
  the cleanup and the effect again, which schedules a new timer.
\<close>

definition useDebounceWithPending_timeout :: "nat \<Rightarrow> 'a hook \<Rightarrow> 'a hook" where
  "useDebounceWithPending_timeout delay st =
     (case timer st of
        None \<Rightarrow> st
      | Some (t, v) \<Rightarrow>
          let st1 = st\<lparr>clock := t, timer := None, debouncedValue := v, isPending := False,
                       calls := calls st @ [(t, v)]\<rparr>
          in if v \<noteq> debouncedValue st \<and> mounted st
             then useDebounceWithPending_effect delay (useDebounceWithPending_cleanup st1)
             else st1)"

text \<open>Time passes up to \<open>target\<close>: every timer whose time has come fires, in turn.\<close>

function run_timers :: "nat \<Rightarrow> nat \<Rightarrow> 'a hook \<Rightarrow> 'a hook" where
  "run_timers delay target st =
     (case timer st of
        None \<Rightarrow> st
      | Some (t, v) \<Rightarrow>
          if t \<le> target then run_timers delay target (useDebounceWithPending_timeout delay st)
          else st)"
  by pat_completeness auto
termination
  by (relation "measure (\<lambda>(delay, target, st).
        case timer st of
          None \<Rightarrow> 0
        | Some (t, v) \<Rightarrow>
            if v = debouncedValue st then 1 else if current st = v then 2 else 3)")
    (auto simp: useDebounceWithPending_timeout_def useDebounceWithPending_effect_def
       useDebounceWithPending_cleanup_def clear_timer_def Let_def)

definition useDebounceWithPending_advance :: "nat \<Rightarrow> nat \<Rightarrow> 'a hook \<Rightarrow> 'a hook" where
  "useDebounceWithPending_advance delay dt st =
     (run_timers delay (clock st + dt) st)\<lparr>clock := clock st + dt\<rparr>"

definition useDebounceWithPending_unmount :: "'a hook \<Rightarrow> 'a hook" where
  "useDebounceWithPending_unmount st = (useDebounceWithPending_cleanup st)\<lparr>mounted := False\<rparr>"

fun useDebounceWithPending_step :: "nat \<Rightarrow> 'a hook_event \<Rightarrow> 'a hook \<Rightarrow> 'a hook" where
  "useDebounceWithPending_step delay (Render v) st = useDebounceWithPending_render v delay st"
| "useDebounceWithPending_step delay (Advance dt) st = useDebounceWithPending_advance delay dt st"
| "useDebounceWithPending_step delay Unmount st = useDebounceWithPending_unmount st"

definition useDebounceWithPending_run :: "nat \<Rightarrow> 'a hook_event list \<Rightarrow> 'a hook \<Rightarrow> 'a hook" where
  "useDebounceWithPending_run delay es st = fold (useDebounceWithPending_step delay) es st"

subsection \<open>Bursts of updates\<close>

text \<open>
  A burst is a first update followed by further updates, each given with the time that has
  passed since the update before it. \<open>rapid\<close> says that every one of these gaps is shorter
  than the delay and that every update brings a new value: a render with the value of the
  render before it changes no dependency of the effect, so it is no update.
\<close>

fun burst :: "(nat \<times> 'a) list \<Rightarrow> 'a hook_event list" where
  "burst [] = []"
| "burst ((gap, v) # later) = Advance gap # Render v # burst later"

fun rapid :: "nat \<Rightarrow> 'a \<Rightarrow> (nat \<times> 'a) list \<Rightarrow> bool" where
  "rapid delay prev [] = True"
| "rapid delay prev ((gap, v) # later) = (gap < delay \<and> v \<noteq> prev \<and> rapid delay v later)"

definition last_value :: "'a \<Rightarrow> (nat \<times> 'a) list \<Rightarrow> 'a" where
  "last_value v later = last (v # map snd later)"

definition duration :: "(nat \<times> 'a) list \<Rightarrow> nat" where
  "duration later = sum_list (map fst later)"

section \<open>Validity predicate of the background cache\<close>

text \<open>
  C2. \<open>isCacheValid\<close> is false for a null record, false when the version differs from the
  current schema version, false when \<open>now - timestamp \<ge> TTL\<close> (24 hours; an age equal to the
  TTL is already invalid), and true in every other case; a record with the current version
  whose timestamp lies in the future is valid.
\<close>

theorem isCacheValid_spec:
  "\<not> isCacheValid None now
   \<and> (version c \<noteq> ''v1'' \<longrightarrow> \<not> isCacheValid (Some c) now)
   \<and> (now - timestamp c \<ge> 24 * 60 * 60 * 1000 \<longrightarrow> \<not> isCacheValid (Some c) now)
   \<and> (version c = ''v1'' \<and> now - timestamp c = 24 * 60 * 60 * 1000 \<longrightarrow> \<not> isCacheValid (Some c) now)
   \<and> (version c = ''v1'' \<and> now - timestamp c < 24 * 60 * 60 * 1000 \<longrightarrow> isCacheValid (Some c) now)
   \<and> (version c = ''v1'' \<and> now < timestamp c \<longrightarrow> isCacheValid (Some c) now)"
  by (simp add: isCacheValid_def BG_EXPIRE_TIME_def BG_CACHE_VERSION_def)

theorem isCacheValid_spec_witness:
  "\<not> isCacheValid (Some \<lparr>url = ''u'', timestamp = 1000, version = ''v0''\<rparr>) 5000
   \<and> \<not> isCacheValid (Some \<lparr>url = ''u'', timestamp = 1000, version = ''v1''\<rparr>) 86401000
   \<and> \<not> isCacheValid (Some \<lparr>url = ''u'', timestamp = 1000, version = ''v1''\<rparr>) 86401001
   \<and> isCacheValid (Some \<lparr>url = ''u'', timestamp = 1000, version = ''v1''\<rparr>) 86400999
   \<and> isCacheValid (Some \<lparr>url = ''u'', timestamp = 9000, version = ''v1''\<rparr>) 5000"
  using isCacheValid_spec [of 5000 "\<lparr>url = ''u'', timestamp = 1000, version = ''v0''\<rparr>"]
    isCacheValid_spec [of 86401000 "\<lparr>url = ''u'', timestamp = 1000, version = ''v1''\<rparr>"]
    isCacheValid_spec [of 86401001 "\<lparr>url = ''u'', timestamp = 1000, version = ''v1''\<rparr>"]
    isCacheValid_spec [of 86400999 "\<lparr>url = ''u'', timestamp = 1000, version = ''v1''\<rparr>"]
    isCacheValid_spec [of 5000 "\<lparr>url = ''u'', timestamp = 9000, version = ''v1''\<rparr>"]
  by simp

section \<open>Reading the background cache\<close>

text \<open>
  C9, as the claim states it, fails for one stored value: the empty string is neither a
  usable record nor removed by the read.
\<close>

theorem getCachedBackground_empty_string_kept:
  "getCachedBackground 0
     \<lparr>window_defined = True, denied = False, item = Some EmptyString, quota_exceeded = False\<rparr>
   = (None, \<lparr>window_defined = True, denied = False, item = Some EmptyString, quota_exceeded = False\<rparr>)"
  by (simp add: getCachedBackground_def)

text \<open>
  C9, amended. In a browser whose storage is accessible, the read returns the stored URL
  exactly when the stored item is a record with the current schema version and an age below
  the TTL, and then leaves the storage as it is. In every other case it returns empty, with
  no error; the stored item is removed when it is expired, version-mismatched, unparseable
  or the JSON \<open>null\<close>, while an absent item and the empty string are left as they are. A
  record written at time \<open>T\<close> reads back its URL at \<open>T + 23h\<close>, reads empty with the item
  removed at \<open>T + 25h\<close>, and a stored record of version \<open>v0\<close> reads empty and is removed.
\<close>

theorem getCachedBackground_spec:
  "window_defined b \<and> \<not> denied b \<longrightarrow>
     (\<forall>u. fst (getCachedBackground now b) = Some u \<longleftrightarrow>
        (\<exists>d. item b = Some (Json d) \<and> url d = u \<and> version d = ''v1''
           \<and> now - timestamp d < hours 24))
     \<and> (fst (getCachedBackground now b) \<noteq> None \<longrightarrow> snd (getCachedBackground now b) = b)
     \<and> (fst (getCachedBackground now b) = None \<longrightarrow>
          snd (getCachedBackground now b) =
            (if item b = None \<or> item b = Some EmptyString then b else b\<lparr>item := None\<rparr>))
     \<and> (\<not> quota_exceeded b \<longrightarrow>
          getCachedBackground (T + hours 23) (setCachedBackground u' T b)
            = (Some u', setCachedBackground u' T b)
          \<and> getCachedBackground (T + hours 25) (setCachedBackground u' T b)
            = (None, b\<lparr>item := None\<rparr>))
     \<and> getCachedBackground T
          (b\<lparr>item := Some (Json \<lparr>url = u', timestamp = T, version = ''v0''\<rparr>)\<rparr>)
        = (None, b\<lparr>item := None\<rparr>)"
  by (auto simp: getCachedBackground_def setCachedBackground_def setItem_def removeItem_def
      isCacheValid_def BG_EXPIRE_TIME_def BG_CACHE_VERSION_def hours_def
      split: option.splits stored.splits)

theorem getCachedBackground_spec_witness:
  "getCachedBackground (1000 + hours 23)
      \<lparr>window_defined = True, denied = False,
       item = Some (Json \<lparr>url = ''bg'', timestamp = 1000, version = ''v1''\<rparr>),
       quota_exceeded = False\<rparr>
    = (Some ''bg'',
       \<lparr>window_defined = True, denied = False,
        item = Some (Json \<lparr>url = ''bg'', timestamp = 1000, version = ''v1''\<rparr>),
        quota_exceeded = False\<rparr>)
   \<and> getCachedBackground (1000 + hours 25)
      \<lparr>window_defined = True, denied = False,
       item = Some (Json \<lparr>url = ''bg'', timestamp = 1000, version = ''v1''\<rparr>),
       quota_exceeded = False\<rparr>
    = (None, \<lparr>window_defined = True, denied = False, item = None, quota_exceeded = False\<rparr>)"
  using getCachedBackground_spec
    [of "\<lparr>window_defined = True, denied = False, item = None, quota_exceeded = False\<rparr>"
        0 1000 "''bg''"]
  by (simp add: setCachedBackground_def setItem_def BG_CACHE_VERSION_def)

section \<open>Saving an identity\<close>



section \<open>IP detection fallback\<close>

text \<open>
  C1, as the claim states it, fails for a partial payload: a response that carries an ip but
  no country keeps the observed ip instead of the "unreachable" sentinel (and one that
  carries only a country keeps that country instead of \<open>US\<close>); only the missing field takes
  its default.
\<close>

theorem detectIp_partial_payload_keeps_ip:
  "detectIp True (FetchResolves 10 (Fulfilled (Data (Str ''1.2.3.4'') Undefined Undefined))) 3000
     = Fulfilled \<lparr>ip = Str ''1.2.3.4'', country = Str ''US'', isDefault = True\<rparr>
   \<and> detectIp True (FetchResolves 10 (Fulfilled (Data Undefined (Str ''CN'') Undefined))) 3000
     = Fulfilled \<lparr>ip = Str DEFAULT_IP, country = Str ''CN'', isDefault = True\<rparr>
   \<and> Str ''1.2.3.4'' \<noteq> Str DEFAULT_IP"
  by (simp add: detectIp_def race_def or_else_def DEFAULT_COUNTRY_def DEFAULT_IP_def)

text \<open>
  C1, amended. The detection never rejects. When the fetch never settles, rejects or
  settles only after the timeout (3000 ms by default), when reading the body rejects, and
  when the payload is null or has neither a truthy ip nor a truthy country (the empty
  payload), it resolves to the default country \<open>US\<close> and the sentinel ip, flagged as a
  default. When the fetch wins the race, each field of the payload that is present (truthy)
  is returned as observed and each missing one takes its default, and the result is flagged
  as a default as soon as one of the two is missing; a well-formed response yields the
  observed ip and country, not flagged. In the page, the same failures set \<open>ipInfo\<close> to the
  sentinel and \<open>US\<close> and mark the application initialised.
\<close>

theorem detectIp_fallback:
  "detectIp ff f tmo \<noteq> Rejected
   \<and> (f = FetchNever \<or> f = FetchRejects t \<or> (f = FetchResolves t r \<and> tmo < t)
        \<or> f = FetchResolves t Rejected \<or> f = FetchResolves t (Fulfilled NoData)
        \<or> (f = FetchResolves t (Fulfilled (Data i c a)) \<and> \<not> truthy i \<and> \<not> truthy c)
      \<longrightarrow> detectIp ff f tmo
            = Fulfilled \<lparr>ip = Str DEFAULT_IP, country = Str ''US'', isDefault = True\<rparr>)
   \<and> (t < tmo \<longrightarrow>
        detectIp ff (FetchResolves t (Fulfilled (Data i c a))) tmo
          = Fulfilled \<lparr>ip = (if truthy i then i else Str DEFAULT_IP),
                       country = (if truthy c then c else Str ''US''),
                       isDefault = (\<not> truthy i \<or> \<not> truthy c)\<rparr>)
   \<and> (t < tmo \<and> si \<noteq> [] \<and> sc \<noteq> [] \<longrightarrow>
        detectIp ff (FetchResolves t (Fulfilled (Data (Str si) (Str sc) a))) tmo
          = Fulfilled \<lparr>ip = Str si, country = Str sc, isDefault = False\<rparr>)
   \<and> (f = FetchNever \<or> f = FetchRejects t \<or> (f = FetchResolves t r \<and> TIMEOUT_MS < t)
        \<or> f = FetchResolves t Rejected \<or> f = FetchResolves t (Fulfilled NoData)
      \<longrightarrow> initializeApp ff f True st
            = (Fulfilled (),
               st\<lparr>ipInfo_ip := Str DEFAULT_IP, ipInfo_country := Str ''US'',
                  isInitialized := True\<rparr>))"
proof -
  have never_rejects: "detectIp ff f tmo \<noteq> Rejected"
    by (simp add: detectIp_def race_def split: fetch.splits promise.splits payload.splits)
  have failure: "detectIp ff f tmo
      = Fulfilled \<lparr>ip = Str DEFAULT_IP, country = Str ''US'', isDefault = True\<rparr>"
    if "f = FetchNever \<or> f = FetchRejects t \<or> (f = FetchResolves t r \<and> tmo < t)
        \<or> f = FetchResolves t Rejected \<or> f = FetchResolves t (Fulfilled NoData)
        \<or> (f = FetchResolves t (Fulfilled (Data i c a)) \<and> \<not> truthy i \<and> \<not> truthy c)"
    using that
    by (auto simp: detectIp_def race_def or_else_def default_result_def DEFAULT_COUNTRY_def)
  have fields: "detectIp ff (FetchResolves t (Fulfilled (Data i c a))) tmo
      = Fulfilled \<lparr>ip = (if truthy i then i else Str DEFAULT_IP),
                   country = (if truthy c then c else Str ''US''),
                   isDefault = (\<not> truthy i \<or> \<not> truthy c)\<rparr>"
    if "t < tmo"
    using that by (simp add: detectIp_def race_def or_else_def DEFAULT_COUNTRY_def)
  have well_formed: "detectIp ff (FetchResolves t (Fulfilled (Data (Str si) (Str sc) a))) tmo
      = Fulfilled \<lparr>ip = Str si, country = Str sc, isDefault = False\<rparr>"
    if "t < tmo \<and> si \<noteq> [] \<and> sc \<noteq> []"
    using that by (simp add: detectIp_def race_def or_else_def)
  have page: "initializeApp ff f True st
      = (Fulfilled (),
         st\<lparr>ipInfo_ip := Str DEFAULT_IP, ipInfo_country := Str ''US'', isInitialized := True\<rparr>)"
    if "f = FetchNever \<or> f = FetchRejects t \<or> (f = FetchResolves t r \<and> TIMEOUT_MS < t)
        \<or> f = FetchResolves t Rejected \<or> f = FetchResolves t (Fulfilled NoData)"
    using that
    by (auto simp: initializeApp_def race_def catch_block_def finally_block_def TIMEOUT_MS_def)
  from never_rejects failure fields well_formed page show ?thesis
    by blast
qed

theorem detectIp_fallback_witness:
  "detectIp False (FetchResolves 5000 (Fulfilled (Data (Str ''1.2.3.4'') (Str ''CN'') Undefined)))
      TIMEOUT_MS
     = Fulfilled \<lparr>ip = Str DEFAULT_IP, country = Str ''US'', isDefault = True\<rparr>
   \<and> detectIp False (FetchResolves 20 (Fulfilled (Data Undefined Undefined Undefined))) TIMEOUT_MS
     = Fulfilled \<lparr>ip = Str DEFAULT_IP, country = Str ''US'', isDefault = True\<rparr>
   \<and> detectIp False (FetchResolves 20 (Fulfilled (Data (Str ''1.2.3.4'') (Str ''CN'') (Bool True))))
        TIMEOUT_MS
     = Fulfilled \<lparr>ip = Str ''1.2.3.4'', country = Str ''CN'', isDefault = False\<rparr>
   \<and> initializeApp False FetchNever True
        \<lparr>ipInfo_ip = Str ''...'', ipInfo_country = Str ''US'', isInitialized = False\<rparr>
     = (Fulfilled (),
        \<lparr>ipInfo_ip = Str DEFAULT_IP, ipInfo_country = Str ''US'', isInitialized = True\<rparr>)"
  using detectIp_fallback
      [of False "FetchResolves 5000 (Fulfilled (Data (Str ''1.2.3.4'') (Str ''CN'') Undefined))"
        TIMEOUT_MS 5000 "Fulfilled (Data (Str ''1.2.3.4'') (Str ''CN'') Undefined)"]
    detectIp_fallback
      [of False "FetchResolves 20 (Fulfilled (Data Undefined Undefined Undefined))"
        TIMEOUT_MS 20 _ Undefined Undefined Undefined]
    detectIp_fallback
      [of False _ TIMEOUT_MS 20 _ _ _ "Bool True" "''1.2.3.4''" "''CN''"]
    detectIp_fallback
      [of False FetchNever _ _ _ _ _ _ _ _
        "\<lparr>ipInfo_ip = Str ''...'', ipInfo_country = Str ''US'', isInitialized = False\<rparr>"]
  by (simp add: TIMEOUT_MS_def)

section \<open>Association lists as insertion-ordered maps\<close>

lemma update_absent: "k \<notin> fst ` set al \<Longrightarrow> AList.update k v al = al @ [(k, v)]"
  by (induction al) auto

lemma length_delete_present:
  "distinct (map fst al) \<Longrightarrow> k \<in> fst ` set al \<Longrightarrow> Suc (length (AList.delete k al)) = length al"
  by (induction al) (auto simp: rev_image_eqI)

lemma set_delete: "set (AList.delete k c) = {x \<in> set c. fst x \<noteq> k}"
  by (auto simp: AList.delete_eq)

lemma delete_unique:
  assumes "distinct (map fst al)" "(k, v) \<in> set al"
  shows "set (AList.delete k al) = set al - {(k, v)}"
  using assms by (auto simp: set_delete dest: eq_key_imp_eq_value [OF assms(1)])

lemma set_tl_subset: "set (tl xs) \<subseteq> set xs"
  by (cases xs) auto

lemma touch_hit:
  "map_of c k = Some v \<Longrightarrow>
   AList.update k v (AList.delete k c) = AList.delete k c @ [(k, v)]"
  by (simp add: update_absent AList.delete_notin_dom)

lemma set_touch:
  assumes "distinct (map fst c)" "map_of c k = Some v"
  shows "set (AList.update k v (AList.delete k c)) = set c"
proof -
  have "(k, v) \<in> set c" using assms(2) by (rule map_of_SomeD)
  then show ?thesis
    unfolding touch_hit [OF assms(2)]
    by (auto simp: set_delete dest: eq_key_imp_eq_value [OF assms(1)])
qed

lemma hit_cache:
  assumes "distinct (map fst c)" "map_of c k = Some v"
  shows "map fst (AList.update k v (AList.delete k c)) = removeAll k (map fst c) @ [k]"
    and "length (AList.update k v (AList.delete k c)) = length c"
    and "k \<in> set (map fst c)"
proof -
  from assms(2) show in_keys: "k \<in> set (map fst c)"
    by (metis map_of_eq_None_iff option.distinct(1) set_map)
  show "map fst (AList.update k v (AList.delete k c)) = removeAll k (map fst c) @ [k]"
    by (simp add: update_absent AList.delete_notin_dom AList.delete_keys)
  from in_keys assms(1) have "Suc (length (AList.delete k c)) = length c"
    by (simp add: length_delete_present)
  then show "length (AList.update k v (AList.delete k c)) = length c"
    by (simp add: touch_hit [OF assms(2)])
qed

lemma evict_oldest_eq:
  "distinct (map fst c) \<Longrightarrow> [] \<notin> fst ` set c \<Longrightarrow>
   evict_oldest c = (if length c \<ge> MAX_CACHE_SIZE then tl c else c)"
  by (cases c) (auto simp: evict_oldest_def AList.delete_id)

section \<open>The most recently touched keys\<close>

lemma remdups_snoc: "remdups (xs @ [k]) = removeAll k (remdups xs) @ [k]"
  by (induction xs) auto

lemma length_removeAll_distinct:
  "distinct b \<Longrightarrow> k \<in> set b \<Longrightarrow> Suc (length (removeAll k b)) = length b"
  by (induction b) auto

lemma recent_present_split:
  assumes "distinct (a @ b)" "k \<in> set b" "length b \<le> n" "a \<noteq> [] \<longrightarrow> length b = n"
  shows "drop (length (removeAll k (a @ b) @ [k]) - n) (removeAll k (a @ b) @ [k])
       = removeAll k b @ [k]"
proof -
  have "k \<notin> set a" using assms(1,2) by auto
  then have ra: "removeAll k a = a" by simp
  have lb: "Suc (length (removeAll k b)) = length b"
    using assms(1,2) by (simp add: length_removeAll_distinct)
  have len: "length (removeAll k (a @ b) @ [k]) = length a + length b"
    using lb by (simp add: ra)
  show ?thesis
  proof (cases "a = []")
    case True
    then show ?thesis using assms(3) lb by simp
  next
    case False
    then have "length b = n" using assms(4) by simp
    then show ?thesis unfolding len by (simp add: ra)
  qed
qed

lemma recent_present:
  assumes "distinct d" "k \<in> set (drop (length d - n) d)"
  shows "drop (length (removeAll k d @ [k]) - n) (removeAll k d @ [k])
       = removeAll k (drop (length d - n) d) @ [k]"
proof -
  have "distinct (take (length d - n) d @ drop (length d - n) d)"
    using assms(1) by simp
  from recent_present_split [OF this assms(2), of n] show ?thesis
    by auto
qed

lemma recent_absent_split:
  assumes "k \<notin> set b" "length b \<le> n" "a \<noteq> [] \<longrightarrow> length b = n" "0 < n"
  shows "drop (length (removeAll k (a @ b) @ [k]) - n) (removeAll k (a @ b) @ [k])
       = (if n \<le> length b then tl b else b) @ [k]"
proof (cases "length b = n")
  case True
  then have "b \<noteq> []" using assms(4) by auto
  then obtain x b' where b: "b = x # b'" by (cases b) auto
  have "drop (length (removeAll k (a @ b) @ [k]) - n) (removeAll k (a @ b) @ [k])
      = drop (Suc (length (removeAll k a))) (removeAll k a @ b @ [k])"
    using assms(1) True by simp
  also have "\<dots> = tl b @ [k]" by (simp add: b)
  finally show ?thesis using True by simp
next
  case False
  then have "a = []" "length b < n" using assms(2,3) by auto
  then show ?thesis using assms(1) by simp
qed

lemma recent_absent:
  assumes "k \<notin> set (drop (length d - n) d)" "0 < n"
  shows "drop (length (removeAll k d @ [k]) - n) (removeAll k d @ [k])
       = (if n \<le> length (drop (length d - n) d) then tl (drop (length d - n) d)
          else drop (length d - n) d) @ [k]"
  using recent_absent_split [OF assms(1) _ _ assms(2), of "take (length d - n) d"]
  by auto

lemma lru_touch_present:
  assumes "k \<in> set (lru_spec ts)"
  shows "lru_spec (ts @ [k]) = removeAll k (lru_spec ts) @ [k]"
  using recent_present [of "remdups ts" k MAX_CACHE_SIZE] assms
  by (simp add: lru_spec_def Let_def remdups_snoc)

lemma lru_touch_absent:
  assumes "k \<notin> set (lru_spec ts)"
  shows "lru_spec (ts @ [k])
       = (if MAX_CACHE_SIZE \<le> length (lru_spec ts) then tl (lru_spec ts) else lru_spec ts) @ [k]"
  using recent_absent [of k "remdups ts" MAX_CACHE_SIZE] assms
  by (simp add: lru_spec_def Let_def remdups_snoc) (simp add: MAX_CACHE_SIZE_def)

section \<open>The steps of the flag cache\<close>

lemma loadFlagIcon_hit:
  "map_of (flagCache st) k = Some v \<Longrightarrow>
   loadFlagIcon k st = (Hit v, st\<lparr>flagCache := AList.delete k (flagCache st) @ [(k, v)]\<rparr>)"
  by (simp add: loadFlagIcon_def touch_hit)

lemma loadFlagIcon_joined:
  "map_of (flagCache st) k = None \<Longrightarrow> map_of (loadingPromises st) k = Some p \<Longrightarrow>
   loadFlagIcon k st = (Joined p, st)"
  by (simp add: loadFlagIcon_def)

lemma loadFlagIcon_started:
  assumes "map_of (flagCache st) k = None" "map_of (loadingPromises st) k = None"
  shows "loadFlagIcon k st
    = (Started (next_promise st),
       st\<lparr>suspended := suspended st @ [(next_promise st, k)],
          loadingPromises := loadingPromises st @ [(k, next_promise st)],
          next_promise := next_promise st + 1\<rparr>)"
proof -
  have "k \<notin> fst ` set (loadingPromises st)"
    using assms(2) by (simp add: map_of_eq_None_iff)
  then show ?thesis using assms by (simp add: loadFlagIcon_def update_absent Let_def)
qed

lemma settle_idle: "map_of (suspended st) p = None \<Longrightarrow> settle flags p ok st = (None, st)"
  by (simp add: settle_def)

lemma settle_failure:
  assumes "map_of (suspended st) p = Some k" "\<not> ok \<or> flags k = None"
  shows "settle flags p ok st
    = (None, st\<lparr>suspended := AList.delete p (suspended st),
                 loadingPromises := AList.delete k (loadingPromises st)\<rparr>)"
  using assms by (auto simp: settle_def Let_def)

lemma settle_pending_fields:
  assumes "map_of (suspended st) p = Some k"
  shows "suspended (snd (settle flags p ok st)) = AList.delete p (suspended st)"
    and "loadingPromises (snd (settle flags p ok st)) = AList.delete k (loadingPromises st)"
    and "next_promise (snd (settle flags p ok st)) = next_promise st"
  using assms by (auto simp: settle_def Let_def split: option.splits)

lemma pending_invI:
  assumes "distinct (map fst (loadingPromises st))"
    and "distinct (map fst (suspended st))" "distinct (map snd (suspended st))"
    and "\<And>p k. (p, k) \<in> set (suspended st) \<longleftrightarrow> (k, p) \<in> set (loadingPromises st)"
    and "\<And>p k. (p, k) \<in> set (suspended st) \<Longrightarrow> p < next_promise st"
    and "\<And>p k. (p, k) \<in> set (suspended st) \<Longrightarrow> k \<notin> fst ` set (flagCache st)"
  shows "pending_inv st"
  unfolding pending_inv_def using assms by blast

lemma pending_invD:
  assumes "pending_inv st"
  shows "distinct (map fst (loadingPromises st))"
    and "distinct (map fst (suspended st))" "distinct (map snd (suspended st))"
    and "\<And>p k. (p, k) \<in> set (suspended st) \<longleftrightarrow> (k, p) \<in> set (loadingPromises st)"
    and "\<And>p k. (p, k) \<in> set (suspended st) \<Longrightarrow> p < next_promise st"
    and "\<And>p k. (p, k) \<in> set (suspended st) \<Longrightarrow> k \<notin> fst ` set (flagCache st)"
  using assms unfolding pending_inv_def by blast+

lemma cache_invI:
  assumes "distinct (map fst (flagCache st))" "length (flagCache st) \<le> MAX_CACHE_SIZE"
    and "\<And>k v. (k, v) \<in> set (flagCache st) \<Longrightarrow> flags k = Some v"
  shows "cache_inv flags st"
  unfolding cache_inv_def using assms by blast

lemma cache_invD:
  assumes "cache_inv flags st"
  shows "distinct (map fst (flagCache st))" "length (flagCache st) \<le> MAX_CACHE_SIZE"
    and "\<And>k v. (k, v) \<in> set (flagCache st) \<Longrightarrow> flags k = Some v"
  using assms unfolding cache_inv_def by blast+

lemma waiting_load:
  assumes "pending_inv st"
  shows "map_of (suspended st) p = Some k \<longleftrightarrow> map_of (loadingPromises st) k = Some p"
  using pending_invD(1,2,4) [OF assms] by (metis map_of_SomeD map_of_is_SomeI)

lemma other_waiting_key:
  assumes "pending_inv st" "(p, k) \<in> set (suspended st)" "(p', k') \<in> set (suspended st)"
    and "p' \<noteq> p"
  shows "k' \<noteq> k"
proof
  assume "k' = k"
  then have "(k, p) \<in> set (loadingPromises st)" "(k, p') \<in> set (loadingPromises st)"
    using assms(2,3) pending_invD(4) [OF assms(1)] by auto
  then have "p = p'" by (rule eq_key_imp_eq_value [OF pending_invD(1) [OF assms(1)]])
  then show False using assms(4) by simp
qed

lemma set_update_subset: "set (AList.update k v al) \<subseteq> insert (k, v) (set al)"
  by (induction al) auto

lemma set_evict_oldest_subset: "set (evict_oldest c) \<subseteq> set c"
  by (auto simp: evict_oldest_def set_delete split: list.splits if_splits)

lemma loadFlagIcon_cache_keys:
  "fst ` set (flagCache (snd (loadFlagIcon k st))) \<subseteq> fst ` set (flagCache st)"
proof (cases "map_of (flagCache st) k")
  case None
  then show ?thesis
    by (cases "map_of (loadingPromises st) k")
      (simp_all add: loadFlagIcon_started loadFlagIcon_joined)
next
  case (Some v)
  then have "(k, v) \<in> set (flagCache st)" by (rule map_of_SomeD)
  then show ?thesis
    by (auto simp: loadFlagIcon_hit [OF Some] set_delete) force
qed

lemma settle_cache_keys:
  assumes "map_of (suspended st) p = Some k"
  shows "fst ` set (flagCache (snd (settle flags p ok st))) \<subseteq> insert k (fst ` set (flagCache st))"
proof -
  have "set (AList.update k v (evict_oldest c)) \<subseteq> insert (k, v) (set c)" for v and c :: "(string \<times> 'a) list"
    using set_update_subset [of k v "evict_oldest c"] set_evict_oldest_subset [of c] by auto
  then have "fst ` set (AList.update k v (evict_oldest c)) \<subseteq> insert k (fst ` set c)"
    for v and c :: "(string \<times> 'a) list"
    by force
  then show ?thesis using assms
    by (auto simp: settle_def Let_def split: option.splits simp del: AList.dom_update)
qed

lemma pending_loadFlagIcon:
  assumes "pending_inv st"
  shows "pending_inv (snd (loadFlagIcon k st))"
proof (cases "map_of (flagCache st) k")
  case (Some v)
  note I = pending_invD [OF assms]
  have keys: "fst ` set (AList.delete k (flagCache st) @ [(k, v)]) \<subseteq> fst ` set (flagCache st)"
    using loadFlagIcon_cache_keys [of k st] by (simp add: loadFlagIcon_hit [OF Some])
  show ?thesis unfolding loadFlagIcon_hit [OF Some]
  proof (rule pending_invI)
    show "k' \<notin> fst ` set (flagCache (snd (Hit v,
        st\<lparr>flagCache := AList.delete k (flagCache st) @ [(k, v)]\<rparr>)))"
      if "(p, k') \<in> set (suspended (snd (Hit v,
        st\<lparr>flagCache := AList.delete k (flagCache st) @ [(k, v)]\<rparr>)))" for p k'
    proof -
      from that have "k' \<notin> fst ` set (flagCache st)" using I(6) by simp
      then show ?thesis using keys by auto
    qed
  qed (use I in simp_all)
next
  case None
  show ?thesis
  proof (cases "map_of (loadingPromises st) k")
    case (Some p)
    then show ?thesis using None assms by (simp add: loadFlagIcon_joined)
  next
    case nl: None
    note I = pending_invD [OF assms]
    have k_new: "k \<notin> fst ` set (loadingPromises st)"
      using nl by (simp add: map_of_eq_None_iff)
    have k_uncached: "k \<notin> fst ` set (flagCache st)"
      using None by (simp add: map_of_eq_None_iff)
    define st' where "st' = st\<lparr>suspended := suspended st @ [(next_promise st, k)],
           loadingPromises := loadingPromises st @ [(k, next_promise st)],
           next_promise := next_promise st + 1\<rparr>"
    have eq: "snd (loadFlagIcon k st) = st'"
      by (simp add: loadFlagIcon_started [OF None nl] st'_def)
    have fresh_id: "next_promise st \<notin> fst ` set (suspended st)"
      using I(5) by force
    have fresh_key: "k \<notin> snd ` set (suspended st)"
      using I(4) k_new by force
    show ?thesis unfolding eq
    proof (rule pending_invI)
      show "distinct (map fst (suspended st'))"
        using I(2) fresh_id by (simp add: st'_def)
      show "distinct (map snd (suspended st'))"
        using I(3) fresh_key by (simp add: st'_def)
      show "distinct (map fst (loadingPromises st'))"
        using I(1) k_new by (simp add: st'_def)
      show "(p, k') \<in> set (suspended st') \<longleftrightarrow> (k', p) \<in> set (loadingPromises st')" for p k'
        using I(4) by (auto simp: st'_def)
      show "p < next_promise st'" if "(p, k') \<in> set (suspended st')" for p k'
        using that I(5) by (auto simp: st'_def less_Suc_eq)
      show "k' \<notin> fst ` set (flagCache st')" if "(p, k') \<in> set (suspended st')" for p k'
        using that I(6) k_uncached by (auto simp: st'_def)
    qed
  qed
qed

lemma pending_settle:
  assumes "pending_inv st"
  shows "pending_inv (snd (settle flags p ok st))"
proof (cases "map_of (suspended st) p")
  case None
  then show ?thesis using assms by (simp add: settle_idle)
next
  case (Some k)
  note I = pending_invD [OF assms]
  note F = settle_pending_fields [OF Some, of flags ok]
  have pk: "(p, k) \<in> set (suspended st)" using Some by (rule map_of_SomeD)
  then have kp: "(k, p) \<in> set (loadingPromises st)" using I(4) by simp
  have susp: "set (AList.delete p (suspended st)) = set (suspended st) - {(p, k)}"
    by (rule delete_unique [OF I(2) pk])
  have load: "set (AList.delete k (loadingPromises st)) = set (loadingPromises st) - {(k, p)}"
    by (rule delete_unique [OF I(1) kp])
  show ?thesis
  proof (rule pending_invI)
    show "distinct (map fst (loadingPromises (snd (settle flags p ok st))))"
      using I(1) by (simp add: F AList.distinct_delete)
    show "distinct (map fst (suspended (snd (settle flags p ok st))))"
      using I(2) by (simp add: F AList.distinct_delete)
    show "distinct (map snd (suspended (snd (settle flags p ok st))))"
      using I(3) by (simp add: F AList.delete_eq distinct_map_filter)
    show "(p', k') \<in> set (suspended (snd (settle flags p ok st)))
        \<longleftrightarrow> (k', p') \<in> set (loadingPromises (snd (settle flags p ok st)))" for p' k'
      using I(4) other_waiting_key [OF assms pk, of p' k'] pk
      by (auto simp: F susp load dest: eq_key_imp_eq_value [OF I(2)])
    show "p' < next_promise (snd (settle flags p ok st))"
      if "(p', k') \<in> set (suspended (snd (settle flags p ok st)))" for p' k'
      using that I(5) by (auto simp: F susp)
    show "k' \<notin> fst ` set (flagCache (snd (settle flags p ok st)))"
      if "(p', k') \<in> set (suspended (snd (settle flags p ok st)))" for p' k'
    proof -
      from that have m: "(p', k') \<in> set (suspended st)" and "p' \<noteq> p"
        using pk by (auto simp: F susp dest: eq_key_imp_eq_value [OF I(2)])
      then have "k' \<noteq> k" using other_waiting_key [OF assms pk] by blast
      moreover have "k' \<notin> fst ` set (flagCache st)" using I(6) [OF m] .
      ultimately show ?thesis using settle_cache_keys [OF Some, of flags ok] by auto
    qed
  qed
qed

lemma cache_loadFlagIcon:
  assumes "cache_inv flags st"
  shows "cache_inv flags (snd (loadFlagIcon k st))"
proof (cases "map_of (flagCache st) k")
  case (Some v)
  note I = cache_invD [OF assms]
  define c' where "c' = AList.update k v (AList.delete k (flagCache st))"
  have st': "snd (loadFlagIcon k st) = st\<lparr>flagCache := c'\<rparr>"
    using Some by (simp add: loadFlagIcon_def c'_def)
  note h = hit_cache [OF I(1) Some, folded c'_def]
  have sets: "set c' = set (flagCache st)"
    unfolding c'_def by (rule set_touch [OF I(1) Some])
  show ?thesis unfolding st'
  proof (rule cache_invI)
    show "distinct (map fst (flagCache (st\<lparr>flagCache := c'\<rparr>)))"
      using I(1) by (simp add: h(1) distinct_removeAll)
    show "length (flagCache (st\<lparr>flagCache := c'\<rparr>)) \<le> MAX_CACHE_SIZE"
      using I(2) by (simp add: h(2))
  qed (use I in \<open>simp_all add: sets\<close>)
next
  case None
  then show ?thesis using assms
    by (cases "map_of (loadingPromises st) k")
      (simp_all add: loadFlagIcon_started loadFlagIcon_joined cache_inv_def)
qed

lemma no_empty_key:
  assumes "cache_inv flags st" "flags [] = None"
  shows "[] \<notin> fst ` set (flagCache st)"
  using cache_invD(3) [OF assms(1)] assms(2) by force

lemma settle_success:
  assumes "cache_inv flags st" "pending_inv st" "flags [] = None"
    and "map_of (suspended st) p = Some k" "flags k = Some icon"
  shows "settle flags p True st
    = (Some icon,
       st\<lparr>suspended := AList.delete p (suspended st),
          flagCache := (if length (flagCache st) \<ge> MAX_CACHE_SIZE then tl (flagCache st)
                        else flagCache st) @ [(k, icon)],
          loadingPromises := AList.delete k (loadingPromises st)\<rparr>)"
proof -
  note I = cache_invD [OF assms(1)]
  have pk: "(p, k) \<in> set (suspended st)" using assms(4) by (rule map_of_SomeD)
  have uncached: "k \<notin> fst ` set (flagCache st)" using pending_invD(6) [OF assms(2) pk] .
  let ?c = "if length (flagCache st) \<ge> MAX_CACHE_SIZE then tl (flagCache st) else flagCache st"
  have ev: "evict_oldest (flagCache st) = ?c"
    by (rule evict_oldest_eq [OF I(1) no_empty_key [OF assms(1,3)]])
  have "set ?c \<subseteq> set (flagCache st)"
    using set_tl_subset [of "flagCache st"] by simp
  then have "k \<notin> fst ` set ?c" using uncached by blast
  then have "AList.update k icon ?c = ?c @ [(k, icon)]" by (rule update_absent)
  then show ?thesis using assms(4,5) by (simp add: settle_def Let_def ev)
qed

lemma cache_settle:
  assumes "cache_inv flags st" "pending_inv st" "flags [] = None"
  shows "cache_inv flags (snd (settle flags p ok st))"
proof (cases "map_of (suspended st) p")
  case None
  then show ?thesis using assms(1) by (simp add: settle_idle)
next
  case (Some k)
  note I = cache_invD [OF assms(1)]
  have pk: "(p, k) \<in> set (suspended st)" using Some by (rule map_of_SomeD)
  have uncached: "k \<notin> fst ` set (flagCache st)" using pending_invD(6) [OF assms(2) pk] .
  show ?thesis
  proof (cases "ok \<and> flags k \<noteq> None")
    case False
    then show ?thesis using settle_failure [OF Some, of ok flags] assms(1)
      by (auto simp: cache_inv_def)
  next
    case True
    then obtain icon where icon: "flags k = Some icon" by auto
    define c where "c = (if length (flagCache st) \<ge> MAX_CACHE_SIZE then tl (flagCache st)
      else flagCache st)"
    have eq: "snd (settle flags p ok st)
        = st\<lparr>suspended := AList.delete p (suspended st), flagCache := c @ [(k, icon)],
             loadingPromises := AList.delete k (loadingPromises st)\<rparr>"
      using True settle_success [OF assms Some icon] by (simp add: c_def)
    have sub: "set c \<subseteq> set (flagCache st)"
      unfolding c_def using set_tl_subset [of "flagCache st"] by auto
    have "distinct (map fst c)"
      using I(1) by (simp add: c_def map_tl distinct_tl)
    moreover have "k \<notin> fst ` set c" using uncached sub by auto
    ultimately have d: "distinct (map fst (c @ [(k, icon)]))" by simp
    have l: "length (c @ [(k, icon)]) \<le> MAX_CACHE_SIZE"
      using I(2) by (auto simp: c_def MAX_CACHE_SIZE_def)
    have v: "flags k' = Some v" if "(k', v) \<in> set (c @ [(k, icon)])" for k' v
      using that sub I(3) icon by auto
    show ?thesis unfolding eq
      by (rule cache_invI) (use d l v in simp_all)
  qed
qed

section \<open>Reachable states of the flag cache\<close>

lemma run_Nil [simp]: "run flags [] st = st"
  by (simp add: run_def)

lemma run_Cons [simp]: "run flags (e # es) st = run flags es (step flags e st)"
  by (simp add: run_def)

lemma pending_initial: "pending_inv initial_module"
  by (simp add: pending_inv_def initial_module_def)

lemma cache_initial: "cache_inv flags initial_module"
  by (simp add: cache_inv_def initial_module_def)

lemma pending_step: "pending_inv st \<Longrightarrow> pending_inv (step flags e st)"
  by (cases e) (simp_all add: pending_loadFlagIcon pending_settle)

lemma cache_step:
  "cache_inv flags st \<Longrightarrow> pending_inv st \<Longrightarrow> flags [] = None \<Longrightarrow> cache_inv flags (step flags e st)"
  by (cases e) (simp_all add: cache_loadFlagIcon cache_settle)

lemma pending_run: "pending_inv st \<Longrightarrow> pending_inv (run flags es st)"
  by (induction es arbitrary: st) (simp_all add: pending_step)

lemma cache_run:
  "cache_inv flags st \<Longrightarrow> pending_inv st \<Longrightarrow> flags [] = None \<Longrightarrow> cache_inv flags (run flags es st)"
  by (induction es arbitrary: st) (simp_all add: pending_step cache_step)

lemmas pending_reachable = pending_run [OF pending_initial]

lemmas cache_reachable = cache_run [OF cache_initial pending_initial]

lemma keys_step:
  assumes "cache_inv flags st" "pending_inv st" "flags [] = None"
    and "map fst (flagCache st) = lru_spec ts"
  shows "map fst (flagCache (step flags e st)) = lru_spec (ts @ touch flags e st)"
proof (cases e)
  case (Call k)
  show ?thesis
  proof (cases "map_of (flagCache st) k")
    case None
    then show ?thesis using assms(4) Call
      by (cases "map_of (loadingPromises st) k")
        (simp_all add: loadFlagIcon_started loadFlagIcon_joined)
  next
    case (Some v)
    have "k \<in> set (lru_spec ts)"
      using hit_cache(3) [OF cache_invD(1) [OF assms(1)] Some] assms(4) by simp
    then show ?thesis using Some Call assms(4)
      by (simp add: loadFlagIcon_hit lru_touch_present AList.delete_keys)
  qed
next
  case (Settle p ok)
  show ?thesis
  proof (cases "map_of (suspended st) p")
    case None
    then show ?thesis using assms(4) Settle by (simp add: settle_idle)
  next
    case (Some k)
    show ?thesis
    proof (cases "ok \<and> flags k \<noteq> None")
      case False
      then show ?thesis using Some Settle assms(4) settle_failure [OF Some, of ok flags]
        by auto
    next
      case True
      then obtain icon where icon: "flags k = Some icon" by auto
      have "k \<notin> fst ` set (flagCache st)"
        using pending_invD(6) [OF assms(2) map_of_SomeD [OF Some]] .
      then have "k \<notin> set (lru_spec ts)" using assms(4) by (metis set_map)
      moreover have "length (lru_spec ts) = length (flagCache st)"
        using assms(4) by (metis length_map)
      ultimately show ?thesis
        using True Some Settle icon assms(4) settle_success [OF assms(1,2,3) Some icon]
        by (simp add: lru_touch_absent map_tl)
    qed
  qed
qed

lemma keys_run:
  assumes "cache_inv flags st" "pending_inv st" "flags [] = None"
    and "map fst (flagCache st) = lru_spec ts"
  shows "map fst (flagCache (run flags es st)) = lru_spec (ts @ touched flags es st)"
  using assms
proof (induction es arbitrary: st ts)
  case Nil
  then show ?case by simp
next
  case (Cons e es)
  have "map fst (flagCache (run flags es (step flags e st)))
      = lru_spec ((ts @ touch flags e st) @ touched flags es (step flags e st))"
    by (rule Cons.IH [OF cache_step [OF Cons.prems(1,2,3)] pending_step [OF Cons.prems(2)]
          Cons.prems(3) keys_step [OF Cons.prems]])
  then show ?case by simp
qed

lemma keys_reachable:
  assumes "flags [] = None"
  shows "map fst (flagCache (run flags es initial_module))
       = lru_spec (touched flags es initial_module)"
  using keys_run [OF cache_initial [of flags] pending_initial assms, of "[]" es]
  by (simp add: initial_module_def lru_spec_def)

section \<open>Awaited loads\<close>

lemma quiet_table:
  assumes "pending_inv st" "suspended st = []"
  shows "loadingPromises st = []"
proof (cases "loadingPromises st")
  case Nil
  then show ?thesis .
next
  case (Cons kp ps)
  then have "(fst kp, snd kp) \<in> set (loadingPromises st)" by simp
  then have "(snd kp, fst kp) \<in> set (suspended st)"
    using pending_invD(4) [OF assms(1)] by blast
  then show ?thesis using assms(2) by simp
qed

lemma load_await_hit:
  "map_of (flagCache st) k = Some v \<Longrightarrow>
   load_await flags ok k st
     = (Some v, st\<lparr>flagCache := AList.delete k (flagCache st) @ [(k, v)]\<rparr>)"
  by (simp add: load_await_def loadFlagIcon_hit)

lemma load_await_events:
  assumes "pending_inv st" "suspended st = []"
  shows "snd (load_await flags ok k st)
       = run flags (if map_of (flagCache st) k = None
                    then [Call k, Settle (next_promise st) ok] else [Call k]) st"
    and "suspended (snd (load_await flags ok k st)) = []"
    and "touched flags (if map_of (flagCache st) k = None
                    then [Call k, Settle (next_promise st) ok] else [Call k]) st
       = (if map_of (flagCache st) k \<noteq> None \<or> (ok \<and> flags k \<noteq> None) then [k] else [])"
proof -
  note q = quiet_table [OF assms]
  let ?st1 = "st\<lparr>suspended := suspended st @ [(next_promise st, k)],
          loadingPromises := loadingPromises st @ [(k, next_promise st)],
          next_promise := next_promise st + 1\<rparr>"
  have started: "loadFlagIcon k st = (Started (next_promise st), ?st1)"
    if "map_of (flagCache st) k = None"
    using that by (simp add: loadFlagIcon_started q)
  have waits: "map_of (suspended ?st1) (next_promise st) = Some k"
    by (simp add: assms(2))
  show "snd (load_await flags ok k st)
       = run flags (if map_of (flagCache st) k = None
                    then [Call k, Settle (next_promise st) ok] else [Call k]) st"
    by (cases "map_of (flagCache st) k")
      (simp_all add: load_await_def started loadFlagIcon_hit)
  show "suspended (snd (load_await flags ok k st)) = []"
  proof (cases "map_of (flagCache st) k")
    case None
    then show ?thesis
      using settle_pending_fields(1) [OF waits, of flags ok]
      by (simp add: load_await_def started assms(2))
  next
    case (Some v)
    then show ?thesis by (simp add: load_await_hit assms(2))
  qed
  show "touched flags (if map_of (flagCache st) k = None
                    then [Call k, Settle (next_promise st) ok] else [Call k]) st
       = (if map_of (flagCache st) k \<noteq> None \<or> (ok \<and> flags k \<noteq> None) then [k] else [])"
    by (cases "map_of (flagCache st) k") (auto simp: started assms(2))
qed

lemma load_all_keys:
  assumes "cache_inv flags st" "pending_inv st" "flags [] = None" "suspended st = []"
    and "map fst (flagCache st) = lru_spec ts" "\<forall>k \<in> set ks. flags k \<noteq> None"
  shows "cache_inv flags (load_all flags ks st) \<and> pending_inv (load_all flags ks st)
       \<and> suspended (load_all flags ks st) = []
       \<and> map fst (flagCache (load_all flags ks st)) = lru_spec (ts @ ks)"
  using assms
proof (induction ks arbitrary: st ts)
  case Nil
  then show ?case by (simp add: load_all_def)
next
  case (Cons k ks)
  note E = load_await_events [OF Cons.prems(2,4), where flags = flags and ok = True and k = k]
  let ?st1 = "snd (load_await flags True k st)"
  have c: "cache_inv flags ?st1"
    unfolding E(1) by (rule cache_run [OF Cons.prems(1,2,3)])
  have p: "pending_inv ?st1"
    unfolding E(1) by (rule pending_run [OF Cons.prems(2)])
  have "flags k \<noteq> None" using Cons.prems(6) by simp
  then have keys: "map fst (flagCache ?st1) = lru_spec (ts @ [k])"
    using keys_run [OF Cons.prems(1,2,3,5),
        of "if map_of (flagCache st) k = None then [Call k, Settle (next_promise st) True]
            else [Call k]"]
    unfolding E(1) E(3) by simp
  have rest: "\<forall>k \<in> set ks. flags k \<noteq> None" using Cons.prems(6) by simp
  from Cons.IH [OF c p Cons.prems(3) E(2) keys rest] show ?case
    by (simp add: load_all_def)
qed

lemma load_all_snoc:
  "load_all flags (ks @ [k]) st = snd (load_await flags True k (load_all flags ks st))"
  by (simp add: load_all_def)

lemma cached_value:
  assumes "cache_inv flags st" "map_of (flagCache st) k = Some v"
  shows "flags k = Some v"
  using cache_invD(3) [OF assms(1) map_of_SomeD [OF assms(2)]] .

lemma cached_lookup:
  assumes "distinct (map fst c)" "k \<in> set (map fst c)"
  shows "\<exists>v. map_of c k = Some v"
  using assms(2) by (metis map_of_eq_None_iff not_None_eq set_map)

section \<open>The eviction scenario\<close>

text \<open>
  C4. With capacity 30, loading 31 distinct keys \<open>k1, k2, k3, \<dots>, k31\<close> in order, each
  load awaited, evicts \<open>k1\<close> and leaves \<open>k2 \<dots> k31\<close>, 30 entries. Loading \<open>k2\<close> again
  returns its component and moves it to the most recently used place, so that loading a
  further key \<open>k32\<close> evicts \<open>k3\<close> and not \<open>k2\<close>. (\<open>rest\<close> stands for \<open>k4 \<dots> k31\<close>; the keys
  are any distinct names the imported module exports.)
\<close>

theorem lru_scenario:
  assumes "distinct (k1 # k2 # k3 # rest @ [k32])" "length rest = 28"
    and "\<forall>k \<in> set (k1 # k2 # k3 # rest @ [k32]). flags k \<noteq> None" "flags [] = None"
  shows "getCachedCodes (load_all flags (k1 # k2 # k3 # rest) initial_module) = k2 # k3 # rest
     \<and> getCacheSize (load_all flags (k1 # k2 # k3 # rest) initial_module) = 30
     \<and> \<not> isCached k1 (load_all flags (k1 # k2 # k3 # rest) initial_module)
     \<and> fst (load_await flags True k2 (load_all flags (k1 # k2 # k3 # rest) initial_module))
         = flags k2
     \<and> getCachedCodes
          (snd (load_await flags True k2 (load_all flags (k1 # k2 # k3 # rest) initial_module)))
         = k3 # rest @ [k2]
     \<and> getCachedCodes
          (snd (load_await flags True k32
            (snd (load_await flags True k2
               (load_all flags (k1 # k2 # k3 # rest) initial_module)))))
         = rest @ [k2, k32]
     \<and> \<not> isCached k3
          (snd (load_await flags True k32
            (snd (load_await flags True k2
               (load_all flags (k1 # k2 # k3 # rest) initial_module)))))
     \<and> isCached k2
          (snd (load_await flags True k32
            (snd (load_await flags True k2
               (load_all flags (k1 # k2 # k3 # rest) initial_module)))))"
proof -
  define ks where "ks = k1 # k2 # k3 # rest"
  define st31 where "st31 = load_all flags ks initial_module"
  define st_hit where "st_hit = snd (load_await flags True k2 st31)"
  define st32 where "st32 = snd (load_await flags True k32 st_hit)"
  have start: "map fst (flagCache (initial_module :: 'a flag_module)) = lru_spec []"
    "suspended (initial_module :: 'a flag_module) = []"
    by (simp_all add: initial_module_def lru_spec_def)
  note L = load_all_keys [OF cache_initial [of flags] pending_initial assms(4) start(2) start(1)]
  have all31: "\<forall>k \<in> set ks. flags k \<noteq> None" using assms(3) by (simp add: ks_def)
  have all32: "\<forall>k \<in> set (ks @ [k2]). flags k \<noteq> None" using assms(3) by (simp add: ks_def)
  have all33: "\<forall>k \<in> set ((ks @ [k2]) @ [k32]). flags k \<noteq> None"
    using assms(3) by (simp add: ks_def)
  have st_hit: "st_hit = load_all flags (ks @ [k2]) initial_module"
    by (simp only: load_all_snoc st_hit_def st31_def)
  have st32: "st32 = load_all flags ((ks @ [k2]) @ [k32]) initial_module"
    by (simp only: load_all_snoc st32_def st_hit)
  have spec31: "lru_spec ks = k2 # k3 # rest"
    using assms(1,2) by (simp add: ks_def lru_spec_def MAX_CACHE_SIZE_def distinct_remdups_id)
  have "k2 \<in> set (lru_spec ks)" by (simp add: spec31)
  then have "lru_spec (ks @ [k2]) = removeAll k2 (lru_spec ks) @ [k2]"
    by (rule lru_touch_present)
  also have "\<dots> = k3 # rest @ [k2]" using assms(1) by (simp add: spec31)
  finally have spec_hit: "lru_spec (ks @ [k2]) = k3 # rest @ [k2]" .
  have "k32 \<notin> set (k3 # rest @ [k2])" using assms(1) by auto
  then have "k32 \<notin> set (lru_spec (ks @ [k2]))" unfolding spec_hit .
  then have "lru_spec ((ks @ [k2]) @ [k32])
      = (if MAX_CACHE_SIZE \<le> length (lru_spec (ks @ [k2])) then tl (lru_spec (ks @ [k2]))
         else lru_spec (ks @ [k2])) @ [k32]"
    by (rule lru_touch_absent)
  also have "\<dots> = rest @ [k2, k32]"
    unfolding spec_hit using assms(2) by (simp add: MAX_CACHE_SIZE_def)
  finally have spec32: "lru_spec ((ks @ [k2]) @ [k32]) = rest @ [k2, k32]" .
  have keys31: "map fst (flagCache st31) = k2 # k3 # rest"
    unfolding st31_def using L [OF all31] by (simp add: spec31)
  have keys_hit: "map fst (flagCache st_hit) = k3 # rest @ [k2]"
    unfolding st_hit using L [OF all32] by (simp only: spec_hit append_Nil)
  have keys32: "map fst (flagCache st32) = rest @ [k2, k32]"
    unfolding st32 using L [OF all33] by (simp only: spec32 append_Nil)
  have size31: "length (flagCache st31) = 30"
    using arg_cong [OF keys31, of length] assms(2) by simp
  have c31: "cache_inv flags st31" unfolding st31_def using L [OF all31] by simp
  obtain v where v: "map_of (flagCache st31) k2 = Some v"
    using cached_lookup [OF cache_invD(1) [OF c31], of k2] keys31 by auto
  have val: "fst (load_await flags True k2 st31) = flags k2"
    by (simp add: load_await_hit [OF v] cached_value [OF c31 v])
  have "k1 \<notin> set (k2 # k3 # rest)" "k3 \<notin> set (rest @ [k2, k32])" "k2 \<in> set (rest @ [k2, k32])"
    using assms(1) by auto
  then have "getCachedCodes st31 = k2 # k3 # rest \<and> getCacheSize st31 = 30
     \<and> \<not> isCached k1 st31 \<and> fst (load_await flags True k2 st31) = flags k2
     \<and> getCachedCodes st_hit = k3 # rest @ [k2]
     \<and> getCachedCodes st32 = rest @ [k2, k32]
     \<and> \<not> isCached k3 st32 \<and> isCached k2 st32"
    using keys31 keys_hit keys32 size31 val
    by (simp only: getCachedCodes_def getCacheSize_def isCached_def) simp
  then show ?thesis
    unfolding st32_def st_hit_def st31_def ks_def .
qed

theorem lru_scenario_witness:
  "getCachedCodes
     (load_all example_flags
        (''k1'' # ''k2'' # ''k3'' #
         [''k4'', ''k5'', ''k6'', ''k7'', ''k8'', ''k9'', ''k10'', ''k11'', ''k12'', ''k13'',
          ''k14'', ''k15'', ''k16'', ''k17'', ''k18'', ''k19'', ''k20'', ''k21'', ''k22'',
          ''k23'', ''k24'', ''k25'', ''k26'', ''k27'', ''k28'', ''k29'', ''k30'', ''k31''])
        initial_module)
   = ''k2'' # ''k3'' #
         [''k4'', ''k5'', ''k6'', ''k7'', ''k8'', ''k9'', ''k10'', ''k11'', ''k12'', ''k13'',
          ''k14'', ''k15'', ''k16'', ''k17'', ''k18'', ''k19'', ''k20'', ''k21'', ''k22'',
          ''k23'', ''k24'', ''k25'', ''k26'', ''k27'', ''k28'', ''k29'', ''k30'', ''k31'']
   \<and> getCachedCodes
       (snd (load_await example_flags True ''k32''
         (snd (load_await example_flags True ''k2''
           (load_all example_flags
              (''k1'' # ''k2'' # ''k3'' #
               [''k4'', ''k5'', ''k6'', ''k7'', ''k8'', ''k9'', ''k10'', ''k11'', ''k12'', ''k13'',
                ''k14'', ''k15'', ''k16'', ''k17'', ''k18'', ''k19'', ''k20'', ''k21'', ''k22'',
                ''k23'', ''k24'', ''k25'', ''k26'', ''k27'', ''k28'', ''k29'', ''k30'', ''k31''])
              initial_module)))))
   = [''k4'', ''k5'', ''k6'', ''k7'', ''k8'', ''k9'', ''k10'', ''k11'', ''k12'', ''k13'',
      ''k14'', ''k15'', ''k16'', ''k17'', ''k18'', ''k19'', ''k20'', ''k21'', ''k22'',
      ''k23'', ''k24'', ''k25'', ''k26'', ''k27'', ''k28'', ''k29'', ''k30'', ''k31'']
     @ [''k2'', ''k32'']"
proof -
  let ?rest = "[''k4'', ''k5'', ''k6'', ''k7'', ''k8'', ''k9'', ''k10'', ''k11'', ''k12'', ''k13'',
      ''k14'', ''k15'', ''k16'', ''k17'', ''k18'', ''k19'', ''k20'', ''k21'', ''k22'',
      ''k23'', ''k24'', ''k25'', ''k26'', ''k27'', ''k28'', ''k29'', ''k30'', ''k31'']"
  let ?flags = "example_flags"
  have d: "distinct (''k1'' # ''k2'' # ''k3'' # ?rest @ [''k32''])" by simp
  have l: "length ?rest = 28" by simp
  have f: "\<forall>k \<in> set (''k1'' # ''k2'' # ''k3'' # ?rest @ [''k32'']). ?flags k \<noteq> None"
    by (simp add: example_flags_def)
  have e: "?flags [] = None" by (simp add: example_flags_def)
  from lru_scenario [OF d l f e] show ?thesis by blast
qed

lemma map_of_snoc_new:
  "k \<notin> fst ` set c \<Longrightarrow> map_of (c @ [(k, v)]) k = Some v"
  by (simp add: map_add_Some_iff map_of_eq_None_iff)

lemma settle_result:
  assumes "cache_inv flags st" "pending_inv st" "flags [] = None"
    and "map_of (suspended st) p = Some k" "fst (settle flags p ok st) = Some icon"
  shows "ok" "flags k = Some icon" "map_of (flagCache (snd (settle flags p ok st))) k = Some icon"
proof -
  have success: "ok \<and> flags k = Some icon"
    using assms(4,5) by (auto simp: settle_def Let_def split: if_splits option.splits)
  then show "ok" "flags k = Some icon" by simp_all
  have "k \<notin> fst ` set (flagCache st)"
    using pending_invD(6) [OF assms(2) map_of_SomeD [OF assms(4)]] .
  then have "k \<notin> fst ` set (if MAX_CACHE_SIZE \<le> length (flagCache st) then tl (flagCache st)
      else flagCache st)"
    using set_tl_subset [of "flagCache st"] by auto
  then show "map_of (flagCache (snd (settle flags p ok st))) k = Some icon"
    using success settle_success [OF assms(1,2,3,4), of icon]
    by (simp add: map_of_snoc_new del: map_of_append)
qed

section \<open>Capacity and eviction order\<close>

text \<open>
  C5. For every sequence of calls of \<open>loadFlagIcon\<close> and settlings of their imports (any
  keys, repeated or not, imports that succeed or fail, in any interleaving), the cache never
  holds more than 30 entries, and its keys are the most recently touched ones, least recently
  touched first. A load that succeeds adds its entry at the end, after removing, when the
  cache is full, exactly the first entry, which is the least recently touched one. The
  imported module is assumed to export nothing under the empty name.
\<close>

theorem cache_never_exceeds_capacity:
  assumes "flags [] = None" "st = run flags es initial_module"
  shows "getCacheSize st \<le> 30
     \<and> getCachedCodes st = lru_spec (touched flags es initial_module)
     \<and> (\<forall>p k icon. map_of (suspended st) p = Some k \<and> flags k = Some icon \<longrightarrow>
           flagCache (snd (settle flags p True st))
             = (if getCacheSize st = 30 then tl (flagCache st) else flagCache st) @ [(k, icon)])"
proof -
  have c: "cache_inv flags st" and p: "pending_inv st"
    unfolding assms(2) by (rule cache_reachable [where flags = flags, OF assms(1)], rule pending_reachable)
  have size: "length (flagCache st) \<le> 30"
    using cache_invD(2) [OF c] by (simp add: MAX_CACHE_SIZE_def)
  have keys: "map fst (flagCache st) = lru_spec (touched flags es initial_module)"
    unfolding assms(2) by (rule keys_reachable [where flags = flags, OF assms(1)])
  have "flagCache (snd (settle flags q True st))
      = (if length (flagCache st) = 30 then tl (flagCache st) else flagCache st) @ [(k, icon)]"
    if "map_of (suspended st) q = Some k" "flags k = Some icon" for q k icon
    using settle_success [OF c p assms(1) that] size by (simp add: MAX_CACHE_SIZE_def)
  then show ?thesis using size keys
    by (simp add: getCacheSize_def getCachedCodes_def)
qed

theorem cache_never_exceeds_capacity_witness:
  "getCacheSize
     (run example_flags
        (concat (map (\<lambda>n. [Call (''k'' @ to_decimal (Suc n)), Settle n True]) [0..<30])
           @ [Call ''k31''])
        initial_module) \<le> 30
   \<and> flagCache
       (snd (settle example_flags 30 True
          (run example_flags
             (concat (map (\<lambda>n. [Call (''k'' @ to_decimal (Suc n)), Settle n True]) [0..<30])
                @ [Call ''k31''])
             initial_module)))
     = tl (flagCache
            (run example_flags
               (concat (map (\<lambda>n. [Call (''k'' @ to_decimal (Suc n)), Settle n True]) [0..<30])
                  @ [Call ''k31''])
               initial_module))
       @ [(''k31'', ''flag of k31'')]"
proof -
  define st0 where "st0 = run example_flags
    (concat (map (\<lambda>n. [Call (''k'' @ to_decimal (Suc n)), Settle n True]) [0..<30])
       @ [Call ''k31''])
    initial_module"
  have e: "example_flags [] = None" by (simp add: example_flags_def)
  have w: "map_of (suspended st0) 30 = Some ''k31''"
    unfolding st0_def by code_simp
  have f: "example_flags ''k31'' = Some ''flag of k31''" by (simp add: example_flags_def)
  have full: "getCacheSize st0 = 30"
    unfolding st0_def by code_simp
  note T = cache_never_exceeds_capacity [where flags = example_flags, OF e st0_def]
  from T have "flagCache (snd (settle example_flags 30 True st0))
      = (if getCacheSize st0 = 30 then tl (flagCache st0) else flagCache st0)
        @ [(''k31'', ''flag of k31'')]"
    using w f by blast
  then have "flagCache (snd (settle example_flags 30 True st0))
      = tl (flagCache st0) @ [(''k31'', ''flag of k31'')]"
    by (simp add: full)
  moreover from T have "getCacheSize st0 \<le> 30" by blast
  ultimately show ?thesis unfolding st0_def by blast
qed

section \<open>Cache hits\<close>

text \<open>
  C6, as the claim states it, fails once the key has been evicted: after the awaited loads of
  31 distinct keys the first of them, whose load succeeded, is no longer cached, and a
  further request for it starts a new load.
\<close>

theorem evicted_key_is_loaded_again:
  "fst (load_await example_flags True ''k1'' initial_module)
     = Some ''flag of k1''
   \<and> fst (loadFlagIcon ''k1''
        (load_all example_flags
           [''k1'', ''k2'', ''k3'', ''k4'', ''k5'', ''k6'', ''k7'', ''k8'', ''k9'', ''k10'',
            ''k11'', ''k12'', ''k13'', ''k14'', ''k15'', ''k16'', ''k17'', ''k18'', ''k19'',
            ''k20'', ''k21'', ''k22'', ''k23'', ''k24'', ''k25'', ''k26'', ''k27'', ''k28'',
            ''k29'', ''k30'', ''k31'']
           initial_module))
     = Started 31"
  by code_simp

text \<open>
  C6, amended. For any key whose load has succeeded and which is still in the cache (it has
  not been evicted since), a request returns the identical cached component without starting
  a load: the table of pending loads and the waiting loads stay as they are, and the entry
  moves to the most recently used place, the other entries keeping their order. A load that
  has just succeeded has stored the component it returned under its key.
\<close>

theorem cache_hit:
  assumes "flags [] = None" "st = run flags es initial_module"
  shows "(fst (load_await flags ok k st) = Some icon \<longrightarrow>
            map_of (flagCache (snd (load_await flags ok k st))) k = Some icon)
     \<and> (map_of (flagCache st) k = Some v \<longrightarrow>
            loadFlagIcon k st
              = (Hit v, st\<lparr>flagCache := AList.delete k (flagCache st) @ [(k, v)]\<rparr>)
          \<and> load_await flags ok k st
              = (Some v, st\<lparr>flagCache := AList.delete k (flagCache st) @ [(k, v)]\<rparr>)
          \<and> getCachedCodes (snd (loadFlagIcon k st)) = removeAll k (getCachedCodes st) @ [k])"
proof -
  have c: "cache_inv flags st" and p: "pending_inv st"
    unfolding assms(2) by (rule cache_reachable [where flags = flags, OF assms(1)], rule pending_reachable)
  have stored: "map_of (flagCache (snd (load_await flags ok k st))) k = Some icon"
    if r: "fst (load_await flags ok k st) = Some icon"
  proof (cases "map_of (flagCache st) k")
    case (Some v)
    have "k \<notin> fst ` set (AList.delete k (flagCache st))" by (rule AList.delete_notin_dom)
    then show ?thesis using r
      by (simp add: load_await_hit [OF Some] map_of_snoc_new del: map_of_append)
  next
    case None
    show ?thesis
    proof (cases "map_of (loadingPromises st) k")
      case (Some q)
      then have w: "map_of (suspended st) q = Some k" using waiting_load [OF p] by simp
      have eq: "load_await flags ok k st = settle flags q ok st"
        by (simp add: load_await_def loadFlagIcon_joined [OF None Some])
      show ?thesis using settle_result(3) [OF c p assms(1) w, of ok icon] r
        by (simp add: eq)
    next
      case nl: None
      let ?st1 = "snd (loadFlagIcon k st)"
      have c1: "cache_inv flags ?st1" by (rule cache_loadFlagIcon [OF c])
      have p1: "pending_inv ?st1" by (rule pending_loadFlagIcon [OF p])
      have "map_of (loadingPromises ?st1) k = Some (next_promise st)"
        by (simp add: loadFlagIcon_started [OF None nl] map_of_snoc_new
            map_of_eq_None_iff [symmetric] nl del: map_of_append)
      then have w: "map_of (suspended ?st1) (next_promise st) = Some k"
        using waiting_load [OF p1] by simp
      have eq: "load_await flags ok k st = settle flags (next_promise st) ok ?st1"
        by (simp add: load_await_def loadFlagIcon_started [OF None nl])
      show ?thesis using settle_result(3) [OF c1 p1 assms(1) w, of ok icon] r
        by (simp add: eq)
    qed
  qed
  have hit: "getCachedCodes (snd (loadFlagIcon k st)) = removeAll k (getCachedCodes st) @ [k]"
    if "map_of (flagCache st) k = Some v"
    using that by (simp add: loadFlagIcon_hit getCachedCodes_def AList.delete_keys)
  show ?thesis using stored hit
    by (auto simp: loadFlagIcon_hit load_await_hit)
qed

theorem cache_hit_witness:
  "fst (loadFlagIcon ''CN''
     (run example_flags
        [Call ''CN'', Settle 0 True, Call ''US'', Settle 1 True] initial_module))
     = Hit ''flag of CN''
   \<and> getCachedCodes (snd (loadFlagIcon ''CN''
     (run example_flags
        [Call ''CN'', Settle 0 True, Call ''US'', Settle 1 True] initial_module)))
     = [''US'', ''CN'']
   \<and> map_of (flagCache (snd (load_await example_flags
        True ''JP''
        (run example_flags
          [Call ''CN'', Settle 0 True, Call ''US'', Settle 1 True] initial_module)))) ''JP''
     = Some ''flag of JP''"
proof -
  define st0 where "st0 = run example_flags [Call ''CN'', Settle 0 True, Call ''US'', Settle 1 True]
    initial_module"
  have e: "example_flags [] = None" by (simp add: example_flags_def)
  have cached: "map_of (flagCache st0) ''CN'' = Some ''flag of CN''"
    unfolding st0_def by code_simp
  have codes: "removeAll ''CN'' (getCachedCodes st0) @ [''CN''] = [''US'', ''CN'']"
    unfolding st0_def by code_simp
  have loaded: "fst (load_await example_flags True ''JP'' st0) = Some ''flag of JP''"
    unfolding st0_def by code_simp
  from cache_hit [where flags = example_flags and k = "''CN''" and v = "''flag of CN''", OF e st0_def]
    cached
  have "loadFlagIcon ''CN'' st0
      = (Hit ''flag of CN'',
         st0\<lparr>flagCache := AList.delete ''CN'' (flagCache st0) @ [(''CN'', ''flag of CN'')]\<rparr>)"
    and "getCachedCodes (snd (loadFlagIcon ''CN'' st0))
      = removeAll ''CN'' (getCachedCodes st0) @ [''CN'']"
    by blast+
  moreover
  from cache_hit [where flags = example_flags and k = "''JP''" and ok = True and icon = "''flag of JP''",
      OF e st0_def] loaded
  have "map_of (flagCache (snd (load_await example_flags True ''JP'' st0))) ''JP'' = Some ''flag of JP''"
    by blast
  ultimately show ?thesis unfolding st0_def
    by (simp only: codes [unfolded st0_def] fst_conv)
qed

section \<open>Request coalescing\<close>



section \<open>Failed loads\<close>

text \<open>
  C8. In every state the module reaches, a load that fails (the import is rejected, or the
  module has no component for the key) is fulfilled with \<open>null\<close> and leaves the cache exactly
  as it was; so does the whole awaited request for a key that is not cached.
\<close>

theorem failed_load_leaves_cache:
  assumes "st = run flags es initial_module" "\<not> ok \<or> flags k = None"
  shows "(map_of (suspended st) p = Some k \<longrightarrow>
            fst (settle flags p ok st) = None
          \<and> flagCache (snd (settle flags p ok st)) = flagCache st)
     \<and> (map_of (flagCache st) k = None \<longrightarrow>
            fst (load_await flags ok k st) = None
          \<and> flagCache (snd (load_await flags ok k st)) = flagCache st)"
proof -
  have p: "pending_inv st"
    unfolding assms(1) by (rule pending_reachable)
  have failed: "fst (settle flags q ok s) = None \<and> flagCache (snd (settle flags q ok s)) = flagCache s"
    if "map_of (suspended s) q = Some k" for q and s :: "'a flag_module"
    by (simp add: settle_failure [where flags = flags, OF that assms(2)])
  have awaited: "fst (load_await flags ok k st) = None
      \<and> flagCache (snd (load_await flags ok k st)) = flagCache st"
    if None: "map_of (flagCache st) k = None"
  proof (cases "map_of (loadingPromises st) k")
    case (Some q)
    then have w: "map_of (suspended st) q = Some k" using waiting_load [OF p] by simp
    show ?thesis using failed [OF w]
      by (simp add: load_await_def loadFlagIcon_joined [OF None Some])
  next
    case nl: None
    let ?st1 = "st\<lparr>suspended := suspended st @ [(next_promise st, k)],
          loadingPromises := loadingPromises st @ [(k, next_promise st)],
          next_promise := next_promise st + 1\<rparr>"
    have "next_promise st \<notin> fst ` set (suspended st)"
      using pending_invD(5) [OF p] by force
    then have w: "map_of (suspended ?st1) (next_promise st) = Some k"
      by (simp add: map_of_snoc_new del: map_of_append)
    show ?thesis using failed [OF w]
      by (simp add: load_await_def loadFlagIcon_started [OF None nl])
  qed
  show ?thesis using failed awaited by blast
qed

theorem failed_load_leaves_cache_witness:
  "fst (settle example_flags 1 True
      (run example_flags
         [Call ''US'', Settle 0 True, Call ''ZZ''] initial_module)) = None
   \<and> flagCache (snd (settle example_flags 1 True
      (run example_flags
         [Call ''US'', Settle 0 True, Call ''ZZ''] initial_module)))
     = flagCache (run example_flags
         [Call ''US'', Settle 0 True, Call ''ZZ''] initial_module)
   \<and> fst (load_await example_flags True ''ZZ''
      (run example_flags
         [Call ''US'', Settle 0 True, Call ''ZZ''] initial_module)) = None"
proof -
  define st0 where "st0 = run example_flags [Call ''US'', Settle 0 True, Call ''ZZ''] initial_module"
  have absent: "\<not> True \<or> example_flags ''ZZ'' = None" by (simp add: example_flags_def)
  have waiting: "map_of (suspended st0) 1 = Some ''ZZ''"
    unfolding st0_def by code_simp
  have uncached: "map_of (flagCache st0) ''ZZ'' = None"
    unfolding st0_def by code_simp
  from failed_load_leaves_cache [where flags = example_flags and p = 1, OF st0_def absent]
    waiting uncached
  show ?thesis unfolding st0_def by blast
qed

section \<open>Steps of the debounce hooks\<close>

lemma last_value_Nil [simp]: "last_value v [] = v"
  by (simp add: last_value_def)

lemma last_value_Cons [simp]: "last_value v ((gap, v') # later) = last_value v' later"
  by (simp add: last_value_def)

lemma duration_Nil [simp]: "duration [] = 0"
  by (simp add: duration_def)

lemma duration_Cons [simp]: "duration ((gap, v) # later) = gap + duration later"
  by (simp add: duration_def)

lemma useDebounce_run_Nil [simp]: "useDebounce_run delay [] st = st"
  by (simp add: useDebounce_run_def)

lemma useDebounce_run_Cons [simp]:
  "useDebounce_run delay (e # es) st = useDebounce_run delay es (useDebounce_step delay e st)"
  by (simp add: useDebounce_run_def)

lemma useDebounceWithPending_run_Nil [simp]: "useDebounceWithPending_run delay [] st = st"
  by (simp add: useDebounceWithPending_run_def)

lemma useDebounceWithPending_run_Cons [simp]:
  "useDebounceWithPending_run delay (e # es) st
     = useDebounceWithPending_run delay es (useDebounceWithPending_step delay e st)"
  by (simp add: useDebounceWithPending_run_def)

lemma useDebounce_render_new:
  assumes "mounted st" "v \<noteq> current st"
  shows "useDebounce_render v delay st = st\<lparr>current := v, timer := Some (clock st + delay, v)\<rparr>"
  using assms
  by (simp add: useDebounce_render_def useDebounce_effect_def useDebounce_cleanup_def
      clear_timer_def)

lemma useDebounce_advance_wait:
  assumes "timer st = Some (t, v)" "clock st + dt < t"
  shows "useDebounce_advance dt st = st\<lparr>clock := clock st + dt\<rparr>"
  using assms by (simp add: useDebounce_advance_def)

lemma useDebounce_advance_fire:
  assumes "timer st = Some (t, v)" "t \<le> clock st + dt"
  shows "useDebounce_advance dt st
    = st\<lparr>clock := clock st + dt, timer := None, debouncedValue := v,
         calls := calls st @ [(t, v)]\<rparr>"
  using assms by (simp add: useDebounce_advance_def useDebounce_timeout_def)

lemma useDebounceWithPending_render_new:
  assumes "mounted st" "v \<noteq> current st"
  shows "useDebounceWithPending_render v delay st
    = st\<lparr>current := v, isPending := (isPending st \<or> v \<noteq> debouncedValue st),
         timer := Some (clock st + delay, v)\<rparr>"
  using assms
  by (simp add: useDebounceWithPending_render_def useDebounceWithPending_effect_def
      useDebounceWithPending_cleanup_def clear_timer_def Let_def)

lemma run_timers_none: "timer st = None \<Longrightarrow> run_timers delay target st = st"
  by (subst run_timers.simps) simp

lemma run_timers_wait:
  "timer st = Some (t, v) \<Longrightarrow> target < t \<Longrightarrow> run_timers delay target st = st"
  by (subst run_timers.simps) simp

lemma run_timers_fire:
  "timer st = Some (t, v) \<Longrightarrow> t \<le> target \<Longrightarrow>
   run_timers delay target st = run_timers delay target (useDebounceWithPending_timeout delay st)"
  by (subst run_timers.simps) simp

lemma useDebounceWithPending_advance_wait:
  assumes "timer st = Some (t, v)" "clock st + dt < t"
  shows "useDebounceWithPending_advance delay dt st = st\<lparr>clock := clock st + dt\<rparr>"
  using assms by (simp add: useDebounceWithPending_advance_def run_timers_wait)

text \<open>The timer of a settled value fires once; the timer of a new value fires and is re-armed.\<close>

lemma timeout_same:
  assumes "timer st = Some (t, v)" "v = debouncedValue st"
  shows "useDebounceWithPending_timeout delay st
    = st\<lparr>clock := t, timer := None, debouncedValue := v, isPending := False,
         calls := calls st @ [(t, v)]\<rparr>"
  using assms by (simp add: useDebounceWithPending_timeout_def)

lemma timeout_changed:
  assumes "timer st = Some (t, v)" "v \<noteq> debouncedValue st" "mounted st" "current st = v"
  shows "useDebounceWithPending_timeout delay st
    = st\<lparr>clock := t, timer := Some (t + delay, v), debouncedValue := v, isPending := False,
         calls := calls st @ [(t, v)]\<rparr>"
  using assms
  by (simp add: useDebounceWithPending_timeout_def useDebounceWithPending_effect_def
      useDebounceWithPending_cleanup_def clear_timer_def Let_def)

section \<open>A burst leaves one timer, for the last value\<close>

lemma useDebounce_burst:
  assumes "mounted s" "timer s = Some (clock s + delay, current s)"
    and "rapid delay (current s) later"
  shows "current (useDebounce_run delay (burst later) s) = last_value (current s) later
     \<and> timer (useDebounce_run delay (burst later) s)
         = Some (clock s + duration later + delay, last_value (current s) later)
     \<and> clock (useDebounce_run delay (burst later) s) = clock s + duration later
     \<and> mounted (useDebounce_run delay (burst later) s)
     \<and> calls (useDebounce_run delay (burst later) s) = calls s
     \<and> debouncedValue (useDebounce_run delay (burst later) s) = debouncedValue s"
  using assms
proof (induction later arbitrary: s)
  case Nil
  then show ?case by simp
next
  case (Cons u later)
  obtain gap v where u: "u = (gap, v)" by (cases u)
  from Cons.prems(3) have gap: "gap < delay" and new: "v \<noteq> current s"
    and rest: "rapid delay v later"
    by (simp_all add: u)
  define s1 where "s1 = useDebounce_advance gap s"
  define s2 where "s2 = useDebounce_render v delay s1"
  have s1: "s1 = s\<lparr>clock := clock s + gap\<rparr>"
    unfolding s1_def using gap by (intro useDebounce_advance_wait [OF Cons.prems(2)]) simp
  have s2: "s2 = s1\<lparr>current := v, timer := Some (clock s1 + delay, v)\<rparr>"
    unfolding s2_def using Cons.prems(1) new by (intro useDebounce_render_new) (simp_all add: s1)
  have "mounted s2" "timer s2 = Some (clock s2 + delay, current s2)"
    "rapid delay (current s2) later"
    using Cons.prems(1) rest by (simp_all add: s2 s1)
  from Cons.IH [OF this] show ?case
    by (simp add: u s1_def [symmetric] s2_def [symmetric]) (simp add: s2 s1 add.assoc)
qed

lemma useDebounceWithPending_burst:
  assumes "mounted s" "timer s = Some (clock s + delay, current s)"
    and "rapid delay (current s) later"
  shows "current (useDebounceWithPending_run delay (burst later) s) = last_value (current s) later
     \<and> timer (useDebounceWithPending_run delay (burst later) s)
         = Some (clock s + duration later + delay, last_value (current s) later)
     \<and> clock (useDebounceWithPending_run delay (burst later) s) = clock s + duration later
     \<and> mounted (useDebounceWithPending_run delay (burst later) s)
     \<and> calls (useDebounceWithPending_run delay (burst later) s) = calls s
     \<and> debouncedValue (useDebounceWithPending_run delay (burst later) s) = debouncedValue s"
  using assms
proof (induction later arbitrary: s)
  case Nil
  then show ?case by simp
next
  case (Cons u later)
  obtain gap v where u: "u = (gap, v)" by (cases u)
  from Cons.prems(3) have gap: "gap < delay" and new: "v \<noteq> current s"
    and rest: "rapid delay v later"
    by (simp_all add: u)
  define s1 where "s1 = useDebounceWithPending_advance delay gap s"
  define s2 where "s2 = useDebounceWithPending_render v delay s1"
  have s1: "s1 = s\<lparr>clock := clock s + gap\<rparr>"
    unfolding s1_def using gap
    by (intro useDebounceWithPending_advance_wait [OF Cons.prems(2)]) simp
  have s2: "s2 = s1\<lparr>current := v, isPending := (isPending s1 \<or> v \<noteq> debouncedValue s1),
      timer := Some (clock s1 + delay, v)\<rparr>"
    unfolding s2_def using Cons.prems(1) new
    by (intro useDebounceWithPending_render_new) (simp_all add: s1)
  have "mounted s2" "timer s2 = Some (clock s2 + delay, current s2)"
    "rapid delay (current s2) later"
    using Cons.prems(1) rest by (simp_all add: s2 s1)
  from Cons.IH [OF this] show ?case
    by (simp add: u s1_def [symmetric] s2_def [symmetric]) (simp add: s2 s1 add.assoc)
qed

section \<open>After teardown\<close>

lemma useDebounce_unmounted_step:
  assumes "\<not> mounted s" "timer s = None"
  shows "\<not> mounted (useDebounce_step delay e s) \<and> timer (useDebounce_step delay e s) = None
     \<and> calls (useDebounce_step delay e s) = calls s
     \<and> debouncedValue (useDebounce_step delay e s) = debouncedValue s"
  using assms
  by (cases e)
    (simp_all add: useDebounce_render_def useDebounce_advance_def useDebounce_unmount_def
      useDebounce_cleanup_def clear_timer_def)

lemma useDebounce_unmounted_run:
  assumes "\<not> mounted s" "timer s = None"
  shows "calls (useDebounce_run delay es s) = calls s
     \<and> debouncedValue (useDebounce_run delay es s) = debouncedValue s"
  using assms
proof (induction es arbitrary: s)
  case Nil
  then show ?case by simp
next
  case (Cons e es)
  note step = useDebounce_unmounted_step [OF Cons.prems, of delay e]
  from Cons.IH [of "useDebounce_step delay e s"] step show ?case by simp
qed

lemma useDebounceWithPending_unmounted_step:
  assumes "\<not> mounted s" "timer s = None"
  shows "\<not> mounted (useDebounceWithPending_step delay e s)
     \<and> timer (useDebounceWithPending_step delay e s) = None
     \<and> calls (useDebounceWithPending_step delay e s) = calls s
     \<and> debouncedValue (useDebounceWithPending_step delay e s) = debouncedValue s"
  using assms
  by (cases e)
    (simp_all add: useDebounceWithPending_render_def useDebounceWithPending_advance_def
      run_timers_none useDebounceWithPending_unmount_def useDebounceWithPending_cleanup_def
      clear_timer_def)

lemma useDebounceWithPending_unmounted_run:
  assumes "\<not> mounted s" "timer s = None"
  shows "calls (useDebounceWithPending_run delay es s) = calls s
     \<and> debouncedValue (useDebounceWithPending_run delay es s) = debouncedValue s"
  using assms
proof (induction es arbitrary: s)
  case Nil
  then show ?case by simp
next
  case (Cons e es)
  note step = useDebounceWithPending_unmounted_step [OF Cons.prems, of delay e]
  from Cons.IH [of "useDebounceWithPending_step delay e s"] step show ?case by simp
qed

section \<open>Time passing after a burst\<close>

text \<open>
  A render with the value of the render before it changes no dependency of the effect: it
  cancels and schedules nothing.
\<close>

lemma render_same_value:
  "useDebounce_render (current st) delay st = st
   \<and> useDebounceWithPending_render (current st) delay st = st"
  by (simp add: useDebounce_render_def useDebounceWithPending_render_def)

text \<open>
  Time passes in any number of steps. With no timer scheduled nothing happens; a scheduled
  timer of the plain hook fires once, at its time.
\<close>

lemma useDebounce_idle_advances:
  assumes "timer s = None"
  shows "debouncedValue (useDebounce_run delay (map Advance dts) s) = debouncedValue s
     \<and> calls (useDebounce_run delay (map Advance dts) s) = calls s"
  using assms
proof (induction dts arbitrary: s)
  case Nil
  then show ?case by simp
next
  case (Cons dt dts)
  have step: "useDebounce_advance dt s = s\<lparr>clock := clock s + dt\<rparr>"
    using Cons.prems by (simp add: useDebounce_advance_def)
  have "timer (useDebounce_advance dt s) = None"
    using Cons.prems by (simp add: step)
  from Cons.IH [OF this] show ?case by (simp add: step)
qed

lemma useDebounce_armed_advances:
  assumes "timer s = Some (F, w)"
  shows "debouncedValue (useDebounce_run delay (map Advance dts) s)
       = (if dts \<noteq> [] \<and> F \<le> clock s + sum_list dts then w else debouncedValue s)
     \<and> calls (useDebounce_run delay (map Advance dts) s)
       = (if dts \<noteq> [] \<and> F \<le> clock s + sum_list dts then calls s @ [(F, w)] else calls s)"
  using assms
proof (induction dts arbitrary: s)
  case Nil
  then show ?case by simp
next
  case (Cons dt dts)
  show ?case
  proof (cases "F \<le> clock s + dt")
    case True
    have step: "useDebounce_advance dt s
        = s\<lparr>clock := clock s + dt, timer := None, debouncedValue := w,
            calls := calls s @ [(F, w)]\<rparr>"
      by (rule useDebounce_advance_fire [OF Cons.prems True])
    have "timer (useDebounce_advance dt s) = None"
      by (simp add: step)
    from useDebounce_idle_advances [OF this, of delay dts] True show ?thesis
      by (simp add: step)
  next
    case False
    have step: "useDebounce_advance dt s = s\<lparr>clock := clock s + dt\<rparr>"
      using False by (intro useDebounce_advance_wait [OF Cons.prems]) simp
    have "timer (useDebounce_advance dt s) = Some (F, w)"
      using Cons.prems by (simp add: step)
    from Cons.IH [OF this] False show ?thesis
      by (cases dts) (simp_all add: step add.assoc)
  qed
qed

text \<open>
  The hook with the pending flag, once its debounced value is \<open>w\<close> and any timer still
  scheduled is one for \<open>w\<close>: whatever time passes, the debounced value stays \<open>w\<close> and every
  call of \<^verbatim>\<open>setDebouncedValue\<close> passes \<open>w\<close>.
\<close>

lemma run_timers_settled:
  assumes "timer s = None \<or> (\<exists>t. lb \<le> t \<and> timer s = Some (t, debouncedValue s))"
  shows "debouncedValue (run_timers delay target s) = debouncedValue s
     \<and> (timer (run_timers delay target s) = None
        \<or> (\<exists>t. lb \<le> t \<and> timer (run_timers delay target s) = Some (t, debouncedValue s)))
     \<and> set (calls s) \<subseteq> set (calls (run_timers delay target s))
     \<and> set (calls (run_timers delay target s))
          \<subseteq> set (calls s) \<union> {(t, debouncedValue s) | t. lb \<le> t}"
proof (cases "timer s")
  case None
  then show ?thesis by (simp add: run_timers_none)
next
  case (Some a)
  with assms obtain t where t: "lb \<le> t" "timer s = Some (t, debouncedValue s)"
    by auto
  show ?thesis
  proof (cases "t \<le> target")
    case True
    have fire: "run_timers delay target s
        = run_timers delay target (useDebounceWithPending_timeout delay s)"
      by (rule run_timers_fire [OF t(2) True])
    have out: "useDebounceWithPending_timeout delay s
        = s\<lparr>clock := t, timer := None, debouncedValue := debouncedValue s,
            isPending := False, calls := calls s @ [(t, debouncedValue s)]\<rparr>"
      by (rule timeout_same [OF t(2) refl])
    have "run_timers delay target s
        = s\<lparr>clock := t, timer := None, debouncedValue := debouncedValue s,
            isPending := False, calls := calls s @ [(t, debouncedValue s)]\<rparr>"
      unfolding fire out by (simp add: run_timers_none)
    then show ?thesis using t(1) by auto
  next
    case False
    then have "run_timers delay target s = s"
      by (intro run_timers_wait [OF t(2)]) simp
    then show ?thesis using t by auto
  qed
qed

lemma useDebounceWithPending_settled_advances:
  assumes "timer s = None \<or> (\<exists>t. lb \<le> t \<and> timer s = Some (t, debouncedValue s))"
  shows "debouncedValue (useDebounceWithPending_run delay (map Advance dts) s) = debouncedValue s
     \<and> set (calls s) \<subseteq> set (calls (useDebounceWithPending_run delay (map Advance dts) s))
     \<and> set (calls (useDebounceWithPending_run delay (map Advance dts) s))
          \<subseteq> set (calls s) \<union> {(t, debouncedValue s) | t. lb \<le> t}"
  using assms
proof (induction dts arbitrary: s)
  case Nil
  then show ?case by simp
next
  case (Cons dt dts)
  define s1 where "s1 = useDebounceWithPending_advance delay dt s"
  note R = run_timers_settled [OF Cons.prems, of delay "clock s + dt"]
  have dv: "debouncedValue s1 = debouncedValue s"
    and cs: "calls s1 = calls (run_timers delay (clock s + dt) s)"
    and tm: "timer s1 = timer (run_timers delay (clock s + dt) s)"
    using R by (simp_all add: s1_def useDebounceWithPending_advance_def del: run_timers.simps)
  have "timer s1 = None \<or> (\<exists>t. lb \<le> t \<and> timer s1 = Some (t, debouncedValue s1))"
    using R unfolding dv tm by blast
  note A = Cons.IH [OF this]
  have run: "useDebounceWithPending_run delay (map Advance (dt # dts)) s
      = useDebounceWithPending_run delay (map Advance dts) s1"
    by (simp add: s1_def)
  show ?case
    unfolding run using A R unfolding dv cs by blast
qed

text \<open>
  The hook with the pending flag while the timer of the latest value is scheduled: the
  debounced value is untouched until the timer fires, and is the latest value from then on.
\<close>

lemma useDebounceWithPending_armed_advances:
  assumes "mounted s" "current s = w" "timer s = Some (F, w)"
  shows "debouncedValue (useDebounceWithPending_run delay (map Advance dts) s)
       = (if dts \<noteq> [] \<and> F \<le> clock s + sum_list dts then w else debouncedValue s)
     \<and> (if dts \<noteq> [] \<and> F \<le> clock s + sum_list dts
        then (F, w) \<in> set (calls (useDebounceWithPending_run delay (map Advance dts) s))
           \<and> set (calls (useDebounceWithPending_run delay (map Advance dts) s))
               \<subseteq> set (calls s) \<union> {(t, w) | t. F \<le> t}
        else calls (useDebounceWithPending_run delay (map Advance dts) s) = calls s)"
  using assms
proof (induction dts arbitrary: s)
  case Nil
  then show ?case by simp
next
  case (Cons dt dts)
  define s2 where "s2 = useDebounceWithPending_advance delay dt s"
  have run: "useDebounceWithPending_run delay (map Advance (dt # dts)) s
      = useDebounceWithPending_run delay (map Advance dts) s2"
    by (simp add: s2_def)
  show ?case
  proof (cases "F \<le> clock s + dt")
    case True
    define s1 where "s1 = useDebounceWithPending_timeout delay s"
    have s1: "debouncedValue s1 = w \<and> calls s1 = calls s @ [(F, w)]
        \<and> (timer s1 = None \<or> (\<exists>t. F \<le> t \<and> timer s1 = Some (t, debouncedValue s1)))"
    proof (cases "w = debouncedValue s")
      case True
      show ?thesis
        unfolding s1_def timeout_same [OF Cons.prems(3) True] by simp
    next
      case False
      show ?thesis
        unfolding s1_def timeout_changed [OF Cons.prems(3) False Cons.prems(1,2)] by simp
    qed
    then have settled: "timer s1 = None
        \<or> (\<exists>t. F \<le> t \<and> timer s1 = Some (t, debouncedValue s1))"
      by blast
    note R = run_timers_settled [OF settled, of delay "clock s + dt"]
    have fire: "run_timers delay (clock s + dt) s = run_timers delay (clock s + dt) s1"
      unfolding s1_def by (rule run_timers_fire [OF Cons.prems(3) True])
    have dv: "debouncedValue s2 = w"
      and cs: "calls s2 = calls (run_timers delay (clock s + dt) s1)"
      and tm: "timer s2 = timer (run_timers delay (clock s + dt) s1)"
      using R s1
      by (simp_all add: s2_def useDebounceWithPending_advance_def fire del: run_timers.simps)
    have "timer s2 = None \<or> (\<exists>t. F \<le> t \<and> timer s2 = Some (t, debouncedValue s2))"
      using R s1 unfolding dv tm by auto
    note A = useDebounceWithPending_settled_advances [OF this, of delay dts]
    have due: "F \<le> clock s + sum_list (dt # dts)"
      using True by simp
    have first: "(F, w) \<in> set (calls s1)" and old: "set (calls s1) = set (calls s) \<union> {(F, w)}"
      using s1 by simp_all
    have "debouncedValue (useDebounceWithPending_run delay (map Advance dts) s2) = w"
      using A by (simp add: dv)
    moreover have "(F, w) \<in> set (calls (useDebounceWithPending_run delay (map Advance dts) s2))"
      using A R first unfolding cs by blast
    moreover have "set (calls (useDebounceWithPending_run delay (map Advance dts) s2))
        \<subseteq> set (calls s) \<union> {(t, w) | t. F \<le> t}"
    proof -
      have "set (calls (useDebounceWithPending_run delay (map Advance dts) s2))
          \<subseteq> set (calls s1) \<union> {(t, w) | t. F \<le> t}"
        using A R s1 unfolding cs dv by auto
      then show ?thesis unfolding old by auto
    qed
    ultimately show ?thesis
      unfolding run using due by simp
  next
    case False
    have step: "s2 = s\<lparr>clock := clock s + dt\<rparr>"
      unfolding s2_def using False
      by (intro useDebounceWithPending_advance_wait [OF Cons.prems(3)]) simp
    have s2: "mounted s2" "current s2 = w" "timer s2 = Some (F, w)"
      and same: "clock s2 = clock s + dt" "debouncedValue s2 = debouncedValue s"
        "calls s2 = calls s"
      using Cons.prems by (simp_all add: step)
    have due: "(dts \<noteq> [] \<and> F \<le> clock s + dt + sum_list dts)
        = (dt # dts \<noteq> [] \<and> F \<le> clock s + sum_list (dt # dts))"
      using False by (cases dts) (simp_all add: add.assoc)
    show ?thesis
      unfolding run using Cons.IH [OF s2] unfolding same due .
  qed
qed

section \<open>Debounced bursts\<close>

text \<open>
  C3. Take a mounted hook in any state and a burst of updates: a first update \<open>v\<close> and
  further updates \<open>later\<close>, each bringing a new value and each arriving less than the delay
  after the one before. Let \<open>T\<close> be the time of the last update and \<open>w\<close> its value, and let
  time pass after the burst in any steps, \<open>elapsed\<close> in all. For both hooks: during the
  burst no timer callback runs and the debounced value stays what it was; it still is that
  value while \<open>elapsed < delay\<close>, and it is \<open>w\<close> from \<open>T + delay\<close> on, so the debounced
  value is committed once, at one delay after the last update; no call of
  \<^verbatim>\<open>setDebouncedValue\<close> ever passes a value other than \<open>w\<close>, and none is made before
  \<open>T + delay\<close>, so no other value of the burst is ever committed. After teardown, from any
  state \<open>x\<close> and whatever happens then, no timer is scheduled, no callback runs and the
  debounced value never changes.
\<close>

theorem debounce_commits_last_value:
  assumes "mounted st" "v \<noteq> current st" "rapid delay v later"
    and "s = useDebounce_run delay (Render v # burst later) st"
    and "p = useDebounceWithPending_run delay (Render v # burst later) st"
    and "T = clock st + duration later" "w = last_value v later"
    and "s' = useDebounce_run delay (map Advance (dt # dts)) s"
    and "p' = useDebounceWithPending_run delay (map Advance (dt # dts)) p"
    and "elapsed = sum_list (dt # dts)"
  shows "debouncedValue s = debouncedValue st \<and> calls s = calls st
     \<and> debouncedValue s' = (if elapsed < delay then debouncedValue st else w)
     \<and> calls s' = (if elapsed < delay then calls st else calls st @ [(T + delay, w)])
     \<and> debouncedValue p = debouncedValue st \<and> calls p = calls st
     \<and> debouncedValue p' = (if elapsed < delay then debouncedValue st else w)
     \<and> (if elapsed < delay then calls p' = calls st
        else (T + delay, w) \<in> set (calls p')
           \<and> set (calls p') \<subseteq> set (calls st) \<union> {(t, w) | t. T + delay \<le> t})
     \<and> timer (useDebounce_unmount x) = None
     \<and> debouncedValue (useDebounce_run delay es (useDebounce_unmount x)) = debouncedValue x
     \<and> calls (useDebounce_run delay es (useDebounce_unmount x)) = calls x
     \<and> timer (useDebounceWithPending_unmount x) = None
     \<and> debouncedValue (useDebounceWithPending_run delay es (useDebounceWithPending_unmount x))
         = debouncedValue x
     \<and> calls (useDebounceWithPending_run delay es (useDebounceWithPending_unmount x)) = calls x"
proof -
  define s0 where "s0 = useDebounce_render v delay st"
  have s0: "s0 = st\<lparr>current := v, timer := Some (clock st + delay, v)\<rparr>"
    unfolding s0_def by (rule useDebounce_render_new [OF assms(1,2)])
  have "mounted s0" "timer s0 = Some (clock s0 + delay, current s0)"
    "rapid delay (current s0) later"
    using assms(1,3) by (simp_all add: s0)
  note B = useDebounce_burst [OF this]
  have s: "s = useDebounce_run delay (burst later) s0"
    by (simp add: assms(4) s0_def)
  have s_facts: "timer s = Some (T + delay, w)" "clock s = T"
    "calls s = calls st" "debouncedValue s = debouncedValue st"
    using B by (simp_all add: s s0 assms(6,7))
  have due: "(dt # dts \<noteq> [] \<and> T + delay \<le> T + sum_list (dt # dts)) = (\<not> elapsed < delay)"
    by (auto simp add: assms(10))
  note S = useDebounce_armed_advances [OF s_facts(1), of delay "dt # dts",
      folded assms(8), unfolded s_facts due]
  define p0 where "p0 = useDebounceWithPending_render v delay st"
  have p0: "p0 = st\<lparr>current := v, isPending := (isPending st \<or> v \<noteq> debouncedValue st),
      timer := Some (clock st + delay, v)\<rparr>"
    unfolding p0_def by (rule useDebounceWithPending_render_new [OF assms(1,2)])
  have "mounted p0" "timer p0 = Some (clock p0 + delay, current p0)"
    "rapid delay (current p0) later"
    using assms(1,3) by (simp_all add: p0)
  note PB = useDebounceWithPending_burst [OF this]
  have p: "p = useDebounceWithPending_run delay (burst later) p0"
    by (simp add: assms(5) p0_def)
  have p_facts: "timer p = Some (T + delay, w)" "clock p = T"
    "calls p = calls st" "debouncedValue p = debouncedValue st"
    and p_more: "mounted p" "current p = w"
    using PB by (simp_all add: p p0 assms(6,7))
  note P = useDebounceWithPending_armed_advances [OF p_more p_facts(1), of delay "dt # dts",
      folded assms(9), unfolded p_facts due]
  have u1: "\<not> mounted (useDebounce_unmount x)" "timer (useDebounce_unmount x) = None"
    by (simp_all add: useDebounce_unmount_def useDebounce_cleanup_def clear_timer_def)
  have u2: "\<not> mounted (useDebounceWithPending_unmount x)"
    "timer (useDebounceWithPending_unmount x) = None"
    by (simp_all add: useDebounceWithPending_unmount_def useDebounceWithPending_cleanup_def
        clear_timer_def)
  have c1: "calls (useDebounce_unmount x) = calls x"
    "debouncedValue (useDebounce_unmount x) = debouncedValue x"
    by (simp_all add: useDebounce_unmount_def useDebounce_cleanup_def clear_timer_def)
  have c2: "calls (useDebounceWithPending_unmount x) = calls x"
    "debouncedValue (useDebounceWithPending_unmount x) = debouncedValue x"
    by (simp_all add: useDebounceWithPending_unmount_def useDebounceWithPending_cleanup_def
        clear_timer_def)
  note U1 = useDebounce_unmounted_run [OF u1, of delay es, unfolded c1]
  note U2 = useDebounceWithPending_unmounted_run [OF u2, of delay es, unfolded c2]
  have plain: "debouncedValue s' = (if elapsed < delay then debouncedValue st else w)"
    "calls s' = (if elapsed < delay then calls st else calls st @ [(T + delay, w)])"
    using S by simp_all
  have pending: "debouncedValue p' = (if elapsed < delay then debouncedValue st else w)"
    "if elapsed < delay then calls p' = calls st
     else (T + delay, w) \<in> set (calls p')
        \<and> set (calls p') \<subseteq> set (calls st) \<union> {(t, w) | t. T + delay \<le> t}"
    using P by (simp_all split: if_splits)
  show ?thesis
    using plain pending U1 U2 u1(2) u2(2) s_facts(3,4) p_facts(3,4) by blast
qed

theorem debounce_commits_last_value_witness:
  "debouncedValue (useDebounce_run 300 (map Advance [299])
      (useDebounce_run 300 (Render ''a'' # burst [(100, ''ab''), (250, ''abc'')])
         (useDebounce_mount ''initial'' 300 0)))
     = ''initial''
   \<and> debouncedValue (useDebounce_run 300 (map Advance [100, 200, 400])
      (useDebounce_run 300 (Render ''a'' # burst [(100, ''ab''), (250, ''abc'')])
         (useDebounce_mount ''initial'' 300 0)))
     = ''abc''
   \<and> calls (useDebounce_run 300 (map Advance [100, 200, 400])
      (useDebounce_run 300 (Render ''a'' # burst [(100, ''ab''), (250, ''abc'')])
         (useDebounce_mount ''initial'' 300 0)))
     = [(650, ''abc'')]
   \<and> debouncedValue (useDebounceWithPending_run 300 (map Advance [299])
      (useDebounceWithPending_run 300 (Render ''a'' # burst [(100, ''ab''), (250, ''abc'')])
         (useDebounceWithPending_mount ''initial'' 300 0)))
     = ''initial''
   \<and> debouncedValue (useDebounceWithPending_run 300 (map Advance [100, 200, 400])
      (useDebounceWithPending_run 300 (Render ''a'' # burst [(100, ''ab''), (250, ''abc'')])
         (useDebounceWithPending_mount ''initial'' 300 0)))
     = ''abc''
   \<and> debouncedValue (useDebounce_run 300 [Advance 1000]
        (useDebounce_unmount
          (useDebounce_run 300 (Render ''a'' # burst [(100, ''ab''), (250, ''abc'')])
             (useDebounce_mount ''initial'' 300 0))))
     = ''initial''
   \<and> calls (useDebounceWithPending_run 300 [Advance 1000]
        (useDebounceWithPending_unmount
          (useDebounceWithPending_run 300 (Render ''a'' # burst [(100, ''ab''), (250, ''abc'')])
             (useDebounceWithPending_mount ''initial'' 300 0))))
     = []"
proof -
  define st :: "string hook" where "st = useDebounce_mount ''initial'' 300 0"
  define later :: "(nat \<times> string) list" where "later = [(100, ''ab''), (250, ''abc'')]"
  define s where "s = useDebounce_run 300 (Render ''a'' # burst later) st"
  define p where "p = useDebounceWithPending_run 300 (Render ''a'' # burst later) st"
  have m: "mounted st" and n: "''a'' \<noteq> current st" and r: "rapid 300 ''a'' later"
    and c: "calls st = []" "clock st = 0" "debouncedValue st = ''initial''"
    by (simp_all add: st_def later_def useDebounce_mount_def useDebounce_effect_def
        initial_hook_def clear_timer_def)
  have T: "350 = clock st + duration later" and w: "''abc'' = last_value ''a'' later"
    by (simp_all add: c later_def)
  have same: "useDebounceWithPending_mount ''initial'' 300 0 = st"
    by (simp add: st_def useDebounceWithPending_mount_def useDebounceWithPending_effect_def
        useDebounce_mount_def useDebounce_effect_def initial_hook_def clear_timer_def Let_def)
  note A = debounce_commits_last_value [OF m n r s_def p_def T w refl refl refl,
      where dt = 299 and dts = "[]" and x = s and es = "[Advance 1000]"]
  note B = debounce_commits_last_value [OF m n r s_def p_def T w refl refl refl,
      where dt = 100 and dts = "[200, 400]" and x = p and es = "[Advance 1000]"]
  have "calls s = []" "debouncedValue s = ''initial''"
    "calls p = []" "debouncedValue p = ''initial''"
    using A c by simp_all
  then show ?thesis
    using A B c unfolding same s_def [symmetric] p_def [symmetric]
    unfolding s_def p_def st_def later_def by simp
qed

end
